theory Spec2Isabelle
  imports Main
begin

section \<open>The table manager of faust/tables/manager.py\<close>

text \<open>
  The manager is a Python object whose methods mutate its own attributes and call
  collaborators (tables, the consumer, the fetcher, the recovery coordinator, the topic
  registry). The embedding passes the manager's state explicitly and records every call
  to a collaborator, and every write a waiter can observe, as an event appended to a
  trace, so that the order of effects of one method can be read off the trace.
  Collaborators are outside this file of the repository: their calls are events and are
  taken to return normally, with one exception. \<open>add\<close> calls
  \<open>get_topic_name()\<close> between its two writes, so whether that call returns or
  raises decides the state \<open>add\<close> leaves, and it is modelled with both outcomes.
\<close>

subsection \<open>Data\<close>

text \<open>A partition identifier \<open>TP\<close>: topic name and partition index.\<close>

datatype tp = TP (tp_topic: string) (tp_partition: int)

text \<open>
  A topic descriptor, as far as the manager uses it. The topic class is not among the
  sources, so what \<open>get_topic_name()\<close> does on a descriptor is taken as given with
  the descriptor: it returns a name, or it raises (\<open>None\<close>), as it does for a
  descriptor that does not stand for exactly one topic name.
\<close>

datatype topic = Topic (get_topic_name: "string option")

text \<open>
  A table, as far as the manager reads it: its identity as an object, \<open>table.name\<close>
  (which \<open>add\<close> asserts not to be \<open>None\<close>) and \<open>table.changelog_topic\<close>.
\<close>

record table =
  table_id :: nat
  name :: "string option"
  changelog_topic :: topic

text \<open>Objects the manager creates; the first field is the identity of the instance.\<close>

datatype queue = FlowControlQueue (queue_id: nat) (maxsize: nat) (clear_on_resume: bool)

datatype channel = Channel (channel_id: nat) (channel_topic: topic) (channel_queue: queue)

datatype recovery = Recovery (recovery_id: nat)

text \<open>A coroutine object made by \<open>table.call_recover_callbacks()\<close>; making it runs nothing.\<close>

datatype coro = CallRecoverCallbacks table

datatype event =
    EvSleep nat
  | EvLogInfo string
  | EvFlowControlQueue queue
  | EvRecoveryCreated recovery
  | EvCloneUsingQueue table queue channel
  | EvTopicsAdd channel
  | EvTableMaybeStart table
  | EvTableStop table
  | EvOnPartitionsRevoked table "tp set"
  | EvOnPartitionsAssigned table "tp set"
  | EvPausePartitions "tp set"
  | EvResumePartitions "tp set"
  | EvPerformSeek
  | EvFetcherStop
  | EvFetcherMaybeStart
  | EvRecoveryStart recovery
  | EvRecoveryStop recovery
  | EvRecoveryOnRebalance recovery "tp set" "tp set" "tp set"
  | EvAsyncioWait "coro list"
  | EvRecoveryStartedSet
  | EvRecoveryCompletedSet
  | EvRebalancingSet bool

text \<open>
  The exceptions raised in the source: \<open>RuntimeError('Too late to add tables at this
  point')\<close>, the failed \<open>assert table.name is not None\<close>,
  \<open>ValueError(f'Table with name {table.name!r} already exists')\<close>, whatever
  \<open>get_topic_name()\<close> raises, and the \<open>ValueError\<close> of \<open>asyncio.wait\<close>
  on an empty collection.
\<close>

datatype error =
    TooLateToAddTables
  | AssertionError
  | TableAlreadyExists string
  | GetTopicNameRaised
  | EmptyWaitSet

text \<open>What the manager reads and writes through \<open>self.app\<close>.\<close>

record app_state =
  conf_stream_buffer_maxsize :: nat
  consumer_assignment :: "tp set"
  rebalancing :: bool

text \<open>
  The manager. \<open>data\<close> is the dict of \<open>FastUserDict\<close>, kept as an association
  list in insertion order because \<open>self.values()\<close> is iterated. The attributes
  with a leading underscore carry the prefix \<open>priv\<close>. \<open>_standbys\<close> is
  assigned once and never read, and is left out. \<open>heap_next\<close> is the identity the
  next created object gets; \<open>trace\<close> is the log of effects, oldest first.
\<close>

record manager =
  app :: app_state
  data :: "(string \<times> table) list"
  priv_changelog_queue :: "queue option"
  priv_channels :: "table \<rightharpoonup> channel"
  priv_changelogs :: "string \<rightharpoonup> table"
  priv_recovery_started :: bool
  recovery_completed :: bool
  priv_recovery :: "recovery option"
  heap_next :: nat
  trace :: "event list"

subsection \<open>Dict operations on \<open>data\<close>\<close>

text \<open>\<open>d[k] = v\<close>: an existing key keeps its place, a new key goes last.\<close>

fun setitem :: "'k \<Rightarrow> 'v \<Rightarrow> ('k \<times> 'v) list \<Rightarrow> ('k \<times> 'v) list" where
  "setitem k v [] = [(k, v)]"
| "setitem k v ((k', v') # d) =
     (if k' = k then (k, v) # d else (k', v') # setitem k v d)"

definition contains :: "manager \<Rightarrow> string \<Rightarrow> bool" where
  "contains m k = (k \<in> set (map fst (data m)))"

definition getitem :: "manager \<Rightarrow> string \<Rightarrow> table option" where
  "getitem m k = map_of (data m) k"

definition values_of :: "manager \<Rightarrow> table list" where
  "values_of m = map snd (data m)"

definition emit :: "event \<Rightarrow> manager \<Rightarrow> manager" where
  "emit e m = m\<lparr>trace := trace m @ [e]\<rparr>"

text \<open>The events a method added to the trace.\<close>

definition new_events :: "manager \<Rightarrow> manager \<Rightarrow> event list" where
  "new_events m m' = drop (length (trace m)) (trace m')"

subsection \<open>The methods\<close>

definition init :: "app_state \<Rightarrow> manager" where
  "init a =
     \<lparr>app = a, data = [], priv_changelog_queue = None, priv_channels = Map.empty,
      priv_changelogs = Map.empty, priv_recovery_started = False,
      recovery_completed = False, priv_recovery = None, heap_next = 0, trace = []\<rparr>"

definition changelog_topics :: "manager \<Rightarrow> string set" where
  "changelog_topics m = dom (priv_changelogs m)"

definition changelog_queue :: "manager \<Rightarrow> queue \<times> manager" where
  "changelog_queue m =
     (case priv_changelog_queue m of
        None \<Rightarrow>
          (let q = FlowControlQueue (heap_next m) (conf_stream_buffer_maxsize (app m)) True
           in (q, emit (EvFlowControlQueue q)
                    (m\<lparr>priv_changelog_queue := Some q, heap_next := Suc (heap_next m)\<rparr>)))
      | Some q \<Rightarrow> (q, m))"

definition recovery :: "manager \<Rightarrow> recovery \<times> manager" where
  "recovery m =
     (case priv_recovery m of
        None \<Rightarrow>
          (let r = Recovery (heap_next m)
           in (r, emit (EvRecoveryCreated r)
                    (m\<lparr>priv_recovery := Some r, heap_next := Suc (heap_next m)\<rparr>)))
      | Some r \<Rightarrow> (r, m))"

text \<open>
  \<open>add\<close> returns what the call returns or raises, and the manager as the call
  leaves it. The table is stored in \<open>data\<close> (line 71) before
  \<open>get_topic_name()\<close> is called for the key of \<open>_changelogs\<close> (line 72): when
  that call raises, the table stays in \<open>data\<close> and \<open>_changelogs\<close> is as it
  was.
\<close>

definition add :: "table \<Rightarrow> manager \<Rightarrow> (error + table) \<times> manager" where
  "add t m =
     (if priv_recovery_started m then (Inl TooLateToAddTables, m)
      else case name t of
        None \<Rightarrow> (Inl AssertionError, m)
      | Some n \<Rightarrow>
          if contains m n then (Inl (TableAlreadyExists n), m)
          else
            (let m1 = m\<lparr>data := setitem n t (data m)\<rparr>
             in case get_topic_name (changelog_topic t) of
                  None \<Rightarrow> (Inl GetTopicNameRaised, m1)
                | Some k \<Rightarrow>
                    (Inr t, m1\<lparr>priv_changelogs := (priv_changelogs m1)(k \<mapsto> t)\<rparr>)))"

text \<open>One round of the loop of \<open>_update_channels\<close>.\<close>

definition wire_table :: "table \<Rightarrow> manager \<Rightarrow> manager" where
  "wire_table t m =
     emit (EvTableMaybeStart t)
       (if t \<notin> dom (priv_channels m) then
          (let (q, m1) = changelog_queue m;
               chan = Channel (heap_next m1) (changelog_topic t) q;
               m2 = emit (EvCloneUsingQueue t q chan) (m1\<lparr>heap_next := Suc (heap_next m1)\<rparr>);
               m3 = emit (EvTopicsAdd chan) m2
           in m3\<lparr>priv_channels := (priv_channels m3)(t \<mapsto> chan)\<rparr>)
        else m)"

fun wire_tables :: "table list \<Rightarrow> manager \<Rightarrow> manager" where
  "wire_tables [] m = m"
| "wire_tables (t # ts) m = wire_tables ts (wire_table t m)"

definition update_channels :: "manager \<Rightarrow> manager" where
  "update_channels m =
     (let m1 = wire_tables (values_of m) m
      in emit (EvPausePartitions
                 (Set.filter (\<lambda>tp. tp_topic tp \<in> dom (priv_changelogs m1))
                    (consumer_assignment (app m1)))) m1)"

definition on_start :: "manager \<Rightarrow> manager" where
  "on_start m =
     (let m1 = emit (EvSleep 1) m;
          m2 = update_channels m1;
          (r, m3) = recovery m2
      in emit (EvRecoveryStart r) m3)"

text \<open>
  Modelled from the spec: the class \<open>Recovery\<close> (faust/tables/recovery.py) is not
  among the sources, so the truth value of an instance in \<open>if self._recovery:\<close> is
  taken from the spec, which stops the coordinator "if it was ever constructed": an
  instance is true.
\<close>

definition recovery_truthy :: "recovery \<Rightarrow> bool" where
  "recovery_truthy r = True"

fun stop_tables :: "table list \<Rightarrow> manager \<Rightarrow> manager" where
  "stop_tables [] m = m"
| "stop_tables (t # ts) m = stop_tables ts (emit (EvTableStop t) m)"

definition on_stop :: "manager \<Rightarrow> manager" where
  "on_stop m =
     (let m1 = emit EvFetcherStop m;
          m2 = (case priv_recovery m1 of
                  None \<Rightarrow> m1
                | Some r \<Rightarrow> if recovery_truthy r then emit (EvRecoveryStop r) m1 else m1)
      in stop_tables (values_of m2) m2)"

fun notify_tables :: "table list \<Rightarrow> tp set \<Rightarrow> tp set \<Rightarrow> manager \<Rightarrow> manager" where
  "notify_tables [] revoked newly_assigned m = m"
| "notify_tables (t # ts) revoked newly_assigned m =
     notify_tables ts revoked newly_assigned
       (emit (EvOnPartitionsAssigned t newly_assigned)
          (emit (EvOnPartitionsRevoked t revoked) m))"

definition on_rebalance :: "tp set \<Rightarrow> tp set \<Rightarrow> tp set \<Rightarrow> manager \<Rightarrow> manager" where
  "on_rebalance assigned revoked newly_assigned m =
     (let m1 = emit EvRecoveryStartedSet (m\<lparr>priv_recovery_started := True\<rparr>);
          m2 = notify_tables (values_of m1) revoked newly_assigned m1;
          m3 = update_channels m2;
          (r, m4) = recovery m3
      in emit (EvRecoveryOnRebalance r assigned revoked newly_assigned) m4)"

definition is_changelog_tp :: "manager \<Rightarrow> tp \<Rightarrow> bool" where
  "is_changelog_tp m tp = (tp_topic tp \<in> changelog_topics m)"

text \<open>
  \<open>await asyncio.wait(fs)\<close> with the default \<open>return_when=ALL_COMPLETED\<close>: it
  raises on an empty collection, and otherwise returns once every member has run to its
  end, in an order the event loop chooses. The return is one event.
\<close>

definition asyncio_wait :: "coro list \<Rightarrow> manager \<Rightarrow> (error + unit) \<times> manager" where
  "asyncio_wait fs m =
     (if fs = [] then (Inl EmptyWaitSet, m) else (Inr (), emit (EvAsyncioWait fs) m))"

definition on_recovery_completed :: "manager \<Rightarrow> (error + unit) \<times> manager" where
  "on_recovery_completed m =
     (let m1 = emit (EvLogInfo ''Restore complete!'') m;
          callback_coros = map CallRecoverCallbacks (values_of m1);
          (r, m2) = (if callback_coros \<noteq> [] then asyncio_wait callback_coros m1
                     else (Inr (), m1))
      in case r of
           Inl e \<Rightarrow> (Inl e, m2)
         | Inr _ \<Rightarrow>
             (let m3 = emit (EvLogInfo ''Perform seek'') m2;
                  m4 = emit EvPerformSeek m3;
                  m5 = emit EvRecoveryCompletedSet (m4\<lparr>recovery_completed := True\<rparr>);
                  assignment = consumer_assignment (app m5);
                  m6 = emit (EvResumePartitions
                               (Set.filter (\<lambda>tp. \<not> is_changelog_tp m5 tp) assignment)) m5;
                  m7 = emit EvFetcherMaybeStart m6;
                  m8 = emit (EvRebalancingSet False)
                         (m7\<lparr>app := (app m7)\<lparr>rebalancing := False\<rparr>\<rparr>)
              in (Inr (), emit (EvLogInfo ''Worker ready'') m8)))"

subsection \<open>Sequences of calls\<close>

text \<open>
  A call a client or the worker can make on the manager, and the consumer getting a new
  assignment from the outside. A raised exception leaves the manager as the method left
  it, and the next call goes on from there. The inherited dict methods that write
  \<open>data\<close> directly (\<open>manager[k] = v\<close>, \<open>del manager[k]\<close>) are not among
  the calls: a table is registered through \<open>add\<close>.
\<close>

datatype call =
    Add table
  | OnStart
  | UpdateChannels
  | OnStop
  | OnRebalance "tp set" "tp set" "tp set"
  | OnRecoveryCompleted
  | GetChangelogQueue
  | GetRecovery
  | GetChangelogTopics
  | ConsumerAssigned "tp set"

fun step :: "manager \<Rightarrow> call \<Rightarrow> manager" where
  "step m (Add t) = snd (add t m)"
| "step m OnStart = on_start m"
| "step m UpdateChannels = update_channels m"
| "step m OnStop = on_stop m"
| "step m (OnRebalance a r n) = on_rebalance a r n m"
| "step m OnRecoveryCompleted = snd (on_recovery_completed m)"
| "step m GetChangelogQueue = snd (changelog_queue m)"
| "step m GetRecovery = snd (recovery m)"
| "step m GetChangelogTopics = m"
| "step m (ConsumerAssigned A) = m\<lparr>app := (app m)\<lparr>consumer_assignment := A\<rparr>\<rparr>"

definition run :: "manager \<Rightarrow> call list \<Rightarrow> manager" where
  "run m cs = foldl step m cs"

subsection \<open>Predicates on traces and states\<close>

text \<open>
  \<open>a\<close> occurs, \<open>b\<close> occurs, and no \<open>a\<close> occurs from the first \<open>b\<close> on: every
  \<open>a\<close> is strictly before every \<open>b\<close>.
\<close>

definition precedes :: "event \<Rightarrow> event \<Rightarrow> event list \<Rightarrow> bool" where
  "precedes a b tr =
     (a \<in> set tr \<and> b \<in> set tr \<and> a \<notin> set (dropWhile (\<lambda>e. e \<noteq> b) tr))"

text \<open>The events of the loop of \<open>_update_channels\<close>, and the resume calls.\<close>

fun is_wiring_event :: "event \<Rightarrow> bool" where
  "is_wiring_event (EvFlowControlQueue q) = True"
| "is_wiring_event (EvCloneUsingQueue t q c) = True"
| "is_wiring_event (EvTopicsAdd c) = True"
| "is_wiring_event (EvTableMaybeStart t) = True"
| "is_wiring_event e = False"

fun is_resume_partitions :: "event \<Rightarrow> bool" where
  "is_resume_partitions (EvResumePartitions S) = True"
| "is_resume_partitions e = False"

text \<open>
  What \<open>add\<close> keeps true of the two registries: the names in \<open>data\<close> are
  pairwise different, every table is stored under its own name, the keys of
  \<open>_changelogs\<close> are the changelog topic names that can be read off the stored
  tables, and every entry of \<open>_changelogs\<close> is a stored table under its own
  changelog topic name.
\<close>

definition registry_ok :: "manager \<Rightarrow> bool" where
  "registry_ok m =
     (distinct (map fst (data m))
      \<and> (\<forall>(k, t) \<in> set (data m). name t = Some k)
      \<and> dom (priv_changelogs m)
          = {k. \<exists>t \<in> set (values_of m). get_topic_name (changelog_topic t) = Some k}
      \<and> (\<forall>k t. priv_changelogs m k = Some t \<longrightarrow>
            t \<in> set (values_of m) \<and> get_topic_name (changelog_topic t) = Some k))"

subsection \<open>Concrete inputs\<close>

text \<open>
  An application whose consumer is assigned one changelog partition and one input
  partition, and five tables: two with changelog topics of their own, one that shares
  the changelog topic of \<open>orders\<close>, one without a name, and one whose changelog
  topic has no single name to read.
\<close>

definition example_app :: app_state where
  "example_app =
     \<lparr>conf_stream_buffer_maxsize = 4096,
      consumer_assignment = {TP ''orders-changelog'' 0, TP ''orders'' 0},
      rebalancing = True\<rparr>"

definition orders_table :: table where
  "orders_table =
     \<lparr>table_id = 1, name = Some ''orders'',
      changelog_topic = Topic (Some ''orders-changelog'')\<rparr>"

definition payments_table :: table where
  "payments_table =
     \<lparr>table_id = 2, name = Some ''payments'',
      changelog_topic = Topic (Some ''payments-changelog'')\<rparr>"


definition nameless_table :: table where
  "nameless_table =
     \<lparr>table_id = 4, name = None, changelog_topic = Topic (Some ''nameless-changelog'')\<rparr>"

definition multi_table :: table where
  "multi_table = \<lparr>table_id = 5, name = Some ''multi'', changelog_topic = Topic None\<rparr>"

subsection \<open>The lazily created objects in a trace\<close>

text \<open>
  The queue an event creates or hands on, and the coordinator an event creates or
  calls; the events that are the construction itself.
\<close>

fun queue_of :: "event \<Rightarrow> queue option" where
  "queue_of (EvFlowControlQueue q) = Some q"
| "queue_of (EvCloneUsingQueue t q c) = Some q"
| "queue_of e = None"

fun is_queue_created :: "event \<Rightarrow> bool" where
  "is_queue_created (EvFlowControlQueue q) = True"
| "is_queue_created e = False"

fun recovery_of :: "event \<Rightarrow> recovery option" where
  "recovery_of (EvRecoveryCreated r) = Some r"
| "recovery_of (EvRecoveryStart r) = Some r"
| "recovery_of (EvRecoveryStop r) = Some r"
| "recovery_of (EvRecoveryOnRebalance r a b c) = Some r"
| "recovery_of e = None"

fun is_recovery_created :: "event \<Rightarrow> bool" where
  "is_recovery_created (EvRecoveryCreated r) = True"
| "is_recovery_created e = False"

text \<open>
  Every queue in the trace is the one in \<open>_changelog_queue\<close>, and the trace has
  one construction if the attribute is filled and none if it is not; the same for the
  coordinator and \<open>_recovery\<close>.
\<close>

definition queue_once :: "manager \<Rightarrow> bool" where
  "queue_once m =
     ((\<forall>e \<in> set (trace m). \<forall>q. queue_of e = Some q \<longrightarrow> priv_changelog_queue m = Some q)
      \<and> length (filter is_queue_created (trace m))
          = (if priv_changelog_queue m = None then 0 else 1))"

definition recovery_once :: "manager \<Rightarrow> bool" where
  "recovery_once m =
     ((\<forall>e \<in> set (trace m). \<forall>r. recovery_of e = Some r \<longrightarrow> priv_recovery m = Some r)
      \<and> length (filter is_recovery_created (trace m))
          = (if priv_recovery m = None then 0 else 1))"

section \<open>Frames and traces of the methods\<close>

lemma setitem_fresh: "k \<notin> set (map fst d) \<Longrightarrow> setitem k v d = d @ [(k, v)]"
  by (induction d) auto

lemma map_of_setitem: "map_of (setitem k v d) = (map_of d)(k \<mapsto> v)"
  by (induction d) auto

lemma trace_emit [simp]: "trace (emit e m) = trace m @ [e]"
  by (simp add: emit_def)

lemma emit_fields [simp]:
  "app (emit e m) = app m" "data (emit e m) = data m"
  "priv_changelog_queue (emit e m) = priv_changelog_queue m"
  "priv_channels (emit e m) = priv_channels m"
  "priv_changelogs (emit e m) = priv_changelogs m"
  "priv_recovery_started (emit e m) = priv_recovery_started m"
  "recovery_completed (emit e m) = recovery_completed m"
  "priv_recovery (emit e m) = priv_recovery m"
  "heap_next (emit e m) = heap_next m"
  by (simp_all add: emit_def)

lemma values_of_emit [simp]: "values_of (emit e m) = values_of m"
  by (simp add: values_of_def)

lemma changelog_queue_frame:
  "app (snd (changelog_queue m)) = app m"
  "data (snd (changelog_queue m)) = data m"
  "priv_channels (snd (changelog_queue m)) = priv_channels m"
  "priv_changelogs (snd (changelog_queue m)) = priv_changelogs m"
  "priv_recovery_started (snd (changelog_queue m)) = priv_recovery_started m"
  "recovery_completed (snd (changelog_queue m)) = recovery_completed m"
  "priv_recovery (snd (changelog_queue m)) = priv_recovery m"
  by (simp_all add: changelog_queue_def Let_def split: option.splits)

lemma recovery_frame:
  "app (snd (recovery m)) = app m"
  "data (snd (recovery m)) = data m"
  "priv_channels (snd (recovery m)) = priv_channels m"
  "priv_changelogs (snd (recovery m)) = priv_changelogs m"
  "priv_recovery_started (snd (recovery m)) = priv_recovery_started m"
  "recovery_completed (snd (recovery m)) = recovery_completed m"
  "priv_changelog_queue (snd (recovery m)) = priv_changelog_queue m"
  by (simp_all add: recovery_def Let_def split: option.splits)

lemma wire_table_frame:
  "app (wire_table t m) = app m"
  "data (wire_table t m) = data m"
  "priv_changelogs (wire_table t m) = priv_changelogs m"
  "priv_recovery_started (wire_table t m) = priv_recovery_started m"
  "recovery_completed (wire_table t m) = recovery_completed m"
  "priv_recovery (wire_table t m) = priv_recovery m"
  by (simp_all add: wire_table_def Let_def case_prod_beta changelog_queue_frame)

lemma wire_tables_frame:
  "app (wire_tables ts m) = app m"
  "data (wire_tables ts m) = data m"
  "priv_changelogs (wire_tables ts m) = priv_changelogs m"
  "priv_recovery_started (wire_tables ts m) = priv_recovery_started m"
  "recovery_completed (wire_tables ts m) = recovery_completed m"
  "priv_recovery (wire_tables ts m) = priv_recovery m"
  by (induction ts arbitrary: m; simp add: wire_table_frame)+

lemma update_channels_frame:
  "app (update_channels m) = app m"
  "data (update_channels m) = data m"
  "priv_changelogs (update_channels m) = priv_changelogs m"
  "priv_recovery_started (update_channels m) = priv_recovery_started m"
  "recovery_completed (update_channels m) = recovery_completed m"
  "priv_recovery (update_channels m) = priv_recovery m"
  by (simp_all add: update_channels_def Let_def wire_tables_frame)

lemma notify_tables_eq:
  "notify_tables ts r n m =
     m\<lparr>trace := trace m @ concat (map (\<lambda>t. [EvOnPartitionsRevoked t r, EvOnPartitionsAssigned t n]) ts)\<rparr>"
  by (induction ts arbitrary: m) (simp_all add: emit_def)

lemma stop_tables_eq:
  "stop_tables ts m = m\<lparr>trace := trace m @ map EvTableStop ts\<rparr>"
  by (induction ts arbitrary: m) (simp_all add: emit_def)

lemma on_start_frame:
  "data (on_start m) = data m"
  "priv_changelogs (on_start m) = priv_changelogs m"
  "priv_recovery_started (on_start m) = priv_recovery_started m"
  "recovery_completed (on_start m) = recovery_completed m"
  "app (on_start m) = app m"
  by (simp_all add: on_start_def Let_def case_prod_beta recovery_frame update_channels_frame)

lemma on_stop_eq:
  "on_stop m = m\<lparr>trace := trace m @ [EvFetcherStop]
       @ (case priv_recovery m of None \<Rightarrow> [] | Some r \<Rightarrow> [EvRecoveryStop r])
       @ map EvTableStop (values_of m)\<rparr>"
  by (simp add: on_stop_def Let_def stop_tables_eq recovery_truthy_def emit_def values_of_def
      split: option.splits)

lemma on_rebalance_frame:
  "data (on_rebalance a r n m) = data m"
  "priv_changelogs (on_rebalance a r n m) = priv_changelogs m"
  "priv_recovery_started (on_rebalance a r n m) = True"
  "recovery_completed (on_rebalance a r n m) = recovery_completed m"
  "app (on_rebalance a r n m) = app m"
  by (simp_all add: on_rebalance_def Let_def case_prod_beta recovery_frame
      update_channels_frame notify_tables_eq)

lemma on_recovery_completed_eq:
  "on_recovery_completed m =
     (Inr (),
      m\<lparr>app := (app m)\<lparr>rebalancing := False\<rparr>, recovery_completed := True,
        trace := trace m @ [EvLogInfo ''Restore complete!'']
          @ (if values_of m = [] then []
             else [EvAsyncioWait (map CallRecoverCallbacks (values_of m))])
          @ [EvLogInfo ''Perform seek'', EvPerformSeek, EvRecoveryCompletedSet,
             EvResumePartitions
               (Set.filter (\<lambda>tp. \<not> is_changelog_tp m tp) (consumer_assignment (app m))),
             EvFetcherMaybeStart, EvRebalancingSet False, EvLogInfo ''Worker ready'']\<rparr>)"
  by (simp add: on_recovery_completed_def asyncio_wait_def Let_def emit_def values_of_def
      is_changelog_tp_def changelog_topics_def)

lemma add_frame:
  "app (snd (add t m)) = app m"
  "priv_changelog_queue (snd (add t m)) = priv_changelog_queue m"
  "priv_channels (snd (add t m)) = priv_channels m"
  "priv_recovery_started (snd (add t m)) = priv_recovery_started m"
  "recovery_completed (snd (add t m)) = recovery_completed m"
  "priv_recovery (snd (add t m)) = priv_recovery m"
  "heap_next (snd (add t m)) = heap_next m"
  "trace (snd (add t m)) = trace m"
  by (simp_all add: add_def Let_def split: option.splits)

text \<open>Traces only grow.\<close>

lemma new_events_append: "trace m' = trace m @ es \<Longrightarrow> new_events m m' = es"
  by (simp add: new_events_def)

lemma changelog_queue_trace:
  "trace (snd (changelog_queue m)) =
     trace m @ (case priv_changelog_queue m of
                  None \<Rightarrow> [EvFlowControlQueue (fst (changelog_queue m))] | Some q \<Rightarrow> [])"
  by (simp add: changelog_queue_def Let_def split: option.splits)

lemma recovery_trace:
  "trace (snd (recovery m)) =
     trace m @ (case priv_recovery m of
                  None \<Rightarrow> [EvRecoveryCreated (fst (recovery m))] | Some r \<Rightarrow> [])"
  by (simp add: recovery_def Let_def split: option.splits)

lemma wire_table_trace:
  "\<exists>es. trace (wire_table t m) = trace m @ es \<and> (\<forall>e \<in> set es. is_wiring_event e)"
  by (auto simp add: wire_table_def Let_def case_prod_beta changelog_queue_trace
      split: option.splits)

lemma wire_tables_trace:
  "\<exists>es. trace (wire_tables ts m) = trace m @ es \<and> (\<forall>e \<in> set es. is_wiring_event e)"
proof (induction ts arbitrary: m)
  case Nil
  show ?case by simp
next
  case (Cons t ts)
  obtain es1 where 1: "trace (wire_table t m) = trace m @ es1" "\<forall>e \<in> set es1. is_wiring_event e"
    using wire_table_trace by blast
  obtain es2 where 2: "trace (wire_tables ts (wire_table t m)) = trace (wire_table t m) @ es2"
      "\<forall>e \<in> set es2. is_wiring_event e"
    using Cons.IH by blast
  have "trace (wire_tables (t # ts) m) = trace m @ (es1 @ es2)"
    using 1 2 by simp
  moreover have "\<forall>e \<in> set (es1 @ es2). is_wiring_event e"
    using 1 2 by auto
  ultimately show ?case by blast
qed

lemma update_channels_trace:
  "\<exists>es. trace (update_channels m) = trace m @ es @
      [EvPausePartitions (Set.filter (\<lambda>tp. tp_topic tp \<in> dom (priv_changelogs m))
                            (consumer_assignment (app m)))]
      \<and> (\<forall>e \<in> set es. is_wiring_event e)"
  using wire_tables_trace [of "values_of m" m]
  by (auto simp add: update_channels_def Let_def wire_tables_frame)

lemma registry_ok_cong:
  "data m' = data m \<Longrightarrow> priv_changelogs m' = priv_changelogs m \<Longrightarrow> registry_ok m' = registry_ok m"
  by (simp add: registry_ok_def values_of_def)

lemma registry_ok_init: "registry_ok (init a)"
  by (simp add: registry_ok_def init_def values_of_def)

lemma registry_ok_add: "registry_ok m \<Longrightarrow> registry_ok (snd (add t m))"
proof (cases "priv_recovery_started m \<or> name t = None \<or> contains m (the (name t))")
  case True
  assume "registry_ok m"
  with True show ?thesis
    by (auto simp add: add_def Let_def split: option.splits)
next
  case False
  assume ok: "registry_ok m"
  from False obtain n where n: "name t = Some n" "\<not> contains m n" "\<not> priv_recovery_started m"
    by auto
  have fresh: "n \<notin> set (map fst (data m))"
    using n by (simp add: contains_def)
  show ?thesis
  proof (cases "get_topic_name (changelog_topic t)")
    case None
    then have m': "snd (add t m) = m\<lparr>data := data m @ [(n, t)]\<rparr>"
      using n fresh by (simp add: add_def Let_def setitem_fresh)
    show ?thesis
      unfolding m' using ok fresh n None
      by (auto simp add: registry_ok_def values_of_def)
  next
    case (Some k)
    then have m': "snd (add t m) =
        m\<lparr>data := data m @ [(n, t)], priv_changelogs := (priv_changelogs m)(k \<mapsto> t)\<rparr>"
      using n fresh by (simp add: add_def Let_def setitem_fresh)
    show ?thesis
      unfolding m' using ok fresh n Some
      by (auto simp add: registry_ok_def values_of_def)
  qed
qed

lemma registry_ok_step: "registry_ok m \<Longrightarrow> registry_ok (step m c)"
proof (cases c)
  case (Add t)
  assume "registry_ok m"
  then show ?thesis using Add by (simp add: registry_ok_add)
next
  case OnRecoveryCompleted
  assume "registry_ok m"
  then show ?thesis using OnRecoveryCompleted
    by (simp add: on_recovery_completed_eq registry_ok_def values_of_def)
qed (simp_all add: registry_ok_cong [of "on_start m" m] on_start_frame
      registry_ok_cong [of "update_channels m" m] update_channels_frame
      on_stop_eq registry_ok_def values_of_def on_rebalance_frame
      changelog_queue_frame recovery_frame)

lemma run_snoc: "run m (cs @ [c]) = step (run m cs) c"
  by (simp add: run_def)

lemma registry_ok_run: "registry_ok m \<Longrightarrow> registry_ok (run m cs)"
  by (induction cs rule: rev_induct) (simp_all add: run_def registry_ok_step)

lemma registry_ok_distinct_values: "registry_ok m \<Longrightarrow> distinct (values_of m)"
proof -
  assume ok: "registry_ok m"
  have "map name (values_of m) = map (Some \<circ> fst) (data m)"
    using ok by (auto simp add: registry_ok_def values_of_def)
  moreover have "distinct (map (Some \<circ> fst) (data m))"
    using ok by (simp add: registry_ok_def distinct_map comp_inj_on_iff inj_on_def)
  ultimately have "distinct (map name (values_of m))" by simp
  then show ?thesis by (simp add: distinct_map)
qed

section \<open>Registration\<close>

text \<open>
  Claim C1, as the code has it. \<open>add\<close> raises the late-registration error exactly
  when \<open>recoveryStarted\<close> is set. Otherwise, for a table that has a name, it raises
  the duplicate-name error exactly when that name is registered. Otherwise, for a table
  that has a name and whose changelog topic name can be read, it returns the table
  itself, with the table last in \<open>data\<close> under its name (every other name as
  before) and filed in \<open>_changelogs\<close> under its changelog topic name. When
  \<open>add\<close> raises either of the two errors, the manager is unchanged.
\<close>

theorem add_outcome:
  "(fst (add t m) = Inl TooLateToAddTables \<longleftrightarrow> priv_recovery_started m)
   \<and> (\<not> priv_recovery_started m \<longrightarrow> name t = Some n \<longrightarrow>
        (fst (add t m) = Inl (TableAlreadyExists n) \<longleftrightarrow> contains m n))
   \<and> (\<not> priv_recovery_started m \<longrightarrow> name t = Some n \<longrightarrow> \<not> contains m n \<longrightarrow>
      get_topic_name (changelog_topic t) = Some k \<longrightarrow>
        add t m = (Inr t, m\<lparr>data := data m @ [(n, t)],
                            priv_changelogs := (priv_changelogs m)(k \<mapsto> t)\<rparr>)
        \<and> getitem (snd (add t m)) n = Some t
        \<and> (\<forall>n'. n' \<noteq> n \<longrightarrow> getitem (snd (add t m)) n' = getitem m n'))
   \<and> (fst (add t m) = Inl TooLateToAddTables \<or> fst (add t m) = Inl (TableAlreadyExists n')
        \<longrightarrow> snd (add t m) = m)"
proof -
  have ok: "add t m = (Inr t, m\<lparr>data := data m @ [(n, t)],
                            priv_changelogs := (priv_changelogs m)(k \<mapsto> t)\<rparr>)"
    if "\<not> priv_recovery_started m" "name t = Some n" "\<not> contains m n"
      "get_topic_name (changelog_topic t) = Some k"
    using that by (simp add: add_def Let_def contains_def setitem_fresh)
  have look: "getitem (snd (add t m)) n = Some t
      \<and> (\<forall>n'. n' \<noteq> n \<longrightarrow> getitem (snd (add t m)) n' = getitem m n')"
    if "\<not> priv_recovery_started m" "name t = Some n" "\<not> contains m n"
      "get_topic_name (changelog_topic t) = Some k"
    using that by (simp add: add_def Let_def getitem_def map_of_setitem)
  have late: "fst (add t m) = Inl TooLateToAddTables \<longleftrightarrow> priv_recovery_started m"
    by (auto simp add: add_def Let_def split: option.splits)
  have dup: "fst (add t m) = Inl (TableAlreadyExists n) \<longleftrightarrow> contains m n"
    if "\<not> priv_recovery_started m" "name t = Some n"
    using that by (auto simp add: add_def Let_def split: option.splits)
  have kept: "snd (add t m) = m"
    if "fst (add t m) = Inl TooLateToAddTables \<or> fst (add t m) = Inl (TableAlreadyExists n')"
    using that by (auto simp add: add_def Let_def split: option.splits if_splits)
  from ok look late dup kept show ?thesis by blast
qed

theorem add_outcome_witness:
  "\<not> priv_recovery_started (init example_app)
   \<and> name orders_table = Some ''orders''
   \<and> \<not> contains (init example_app) ''orders''
   \<and> get_topic_name (changelog_topic orders_table) = Some ''orders-changelog''
   \<and> fst (add orders_table (init example_app)) = Inr orders_table
   \<and> getitem (snd (add orders_table (init example_app))) ''orders'' = Some orders_table
   \<and> priv_changelogs (snd (add orders_table (init example_app))) ''orders-changelog''
       = Some orders_table
   \<and> contains (snd (add orders_table (init example_app))) ''orders''
   \<and> add orders_table (snd (add orders_table (init example_app)))
       = (Inl (TableAlreadyExists ''orders''), snd (add orders_table (init example_app)))"
proof -
  let ?m0 = "init example_app"
  let ?m1 = "snd (add orders_table ?m0)"
  have h: "\<not> priv_recovery_started ?m0" "name orders_table = Some ''orders''"
    "\<not> contains ?m0 ''orders''"
    "get_topic_name (changelog_topic orders_table) = Some ''orders-changelog''"
    by (simp_all add: init_def orders_table_def contains_def)
  have first: "add orders_table ?m0 =
      (Inr orders_table,
       ?m0\<lparr>data := data ?m0 @ [(''orders'', orders_table)],
           priv_changelogs := (priv_changelogs ?m0)(''orders-changelog'' \<mapsto> orders_table)\<rparr>)"
    and look: "getitem ?m1 ''orders'' = Some orders_table"
    using add_outcome [of orders_table ?m0 "''orders''" "''orders-changelog''"] h by blast+
  have m1: "\<not> priv_recovery_started ?m1" "contains ?m1 ''orders''"
    "priv_changelogs ?m1 ''orders-changelog'' = Some orders_table"
    unfolding first by (simp_all add: contains_def init_def)
  have dup: "fst (add orders_table ?m1) = Inl (TableAlreadyExists ''orders'')"
    using add_outcome [of orders_table ?m1 "''orders''"] h(2) m1 by blast
  then have "snd (add orders_table ?m1) = ?m1"
    using add_outcome [of orders_table ?m1 _ _ "''orders''"] by blast
  with dup have "add orders_table ?m1 = (Inl (TableAlreadyExists ''orders''), ?m1)"
    by (simp add: prod_eq_iff)
  with h first look m1 show ?thesis by simp
qed

text \<open>
  The claim as written gives \<open>add\<close> three outcomes, for every table. On a fresh
  manager, where recovery has not started and no table is registered, a table whose name
  is \<open>None\<close> fails the assertion and is not recorded; and a table with a name,
  whose changelog topic name cannot be read, is stored in \<open>data\<close> and then the
  call raises, so the table is neither filed in \<open>_changelogs\<close> nor returned.
\<close>

theorem add_outcome_counterexample:
  "\<not> priv_recovery_started (init example_app)
   \<and> data (init example_app) = []
   \<and> add nameless_table (init example_app) = (Inl AssertionError, init example_app)
   \<and> name multi_table = Some ''multi''
   \<and> add multi_table (init example_app)
       = (Inl GetTopicNameRaised, (init example_app)\<lparr>data := [(''multi'', multi_table)]\<rparr>)
   \<and> dom (priv_changelogs (snd (add multi_table (init example_app)))) = {}"
  by (simp add: add_def Let_def contains_def init_def nameless_table_def multi_table_def)


text \<open>The manager after registering \<open>orders\<close> and \<open>payments\<close>.\<close>

lemma two_adds:
  "run (init example_app) [Add orders_table, Add payments_table] =
     (init example_app)
       \<lparr>data := [(''orders'', orders_table), (''payments'', payments_table)],
        priv_changelogs := [''orders-changelog'' \<mapsto> orders_table,
                            ''payments-changelog'' \<mapsto> payments_table]\<rparr>"
  by (simp add: run_def add_def Let_def contains_def init_def orders_table_def
      payments_table_def)



section \<open>Channel wiring\<close>

lemma wiring_not_pause: "is_wiring_event e \<Longrightarrow> e \<noteq> EvPausePartitions S"
  by (cases e) simp_all

text \<open>
  Claim C5. In every state, the last thing \<open>_update_channels\<close> does is to call
  \<open>pause_partitions\<close> with exactly the assigned partitions whose topic is a key of
  \<open>_changelogs\<close>, and it calls \<open>pause_partitions\<close> nowhere else. After any
  sequence of calls on a fresh manager, with any assignment, that set is exactly the
  assigned partitions whose topic is the changelog topic name of a registered table.
\<close>

theorem update_channels_pauses_changelogs:
  "last (trace (update_channels m))
     = EvPausePartitions {tp \<in> consumer_assignment (app m). tp_topic tp \<in> changelog_topics m}
   \<and> last (new_events m (update_channels m)) = last (trace (update_channels m))
   \<and> (\<forall>S. EvPausePartitions S \<notin> set (butlast (new_events m (update_channels m))))
   \<and> last (trace (update_channels (run (init a) cs)))
     = EvPausePartitions
         {tp \<in> consumer_assignment (app (run (init a) cs)).
            \<exists>t \<in> set (values_of (run (init a) cs)).
              get_topic_name (changelog_topic t) = Some (tp_topic tp)}"
proof -
  have any: "last (trace (update_channels m))
       = EvPausePartitions {tp \<in> consumer_assignment (app m). tp_topic tp \<in> changelog_topics m}
     \<and> last (new_events m (update_channels m)) = last (trace (update_channels m))
     \<and> (\<forall>S. EvPausePartitions S \<notin> set (butlast (new_events m (update_channels m))))" for m
  proof -
    let ?S = "{tp \<in> consumer_assignment (app m). tp_topic tp \<in> changelog_topics m}"
    obtain es where es: "trace (update_channels m) = trace m @ es @ [EvPausePartitions ?S]"
      and wiring: "\<forall>e \<in> set es. is_wiring_event e"
      using update_channels_trace [of m] by (auto simp add: changelog_topics_def)
    have new: "new_events m (update_channels m) = es @ [EvPausePartitions ?S]"
      using es by (simp add: new_events_def)
    have "\<forall>S. EvPausePartitions S \<notin> set (butlast (new_events m (update_channels m)))"
      using wiring wiring_not_pause by (auto simp add: new)
    with es new show ?thesis by simp
  qed
  let ?m = "run (init a) cs"
  have "registry_ok ?m"
    by (simp add: registry_ok_init registry_ok_run)
  then have "dom (priv_changelogs ?m)
      = {k. \<exists>t \<in> set (values_of ?m). get_topic_name (changelog_topic t) = Some k}"
    unfolding registry_ok_def by blast
  then have "{tp \<in> consumer_assignment (app ?m). tp_topic tp \<in> changelog_topics ?m}
      = {tp \<in> consumer_assignment (app ?m).
           \<exists>t \<in> set (values_of ?m). get_topic_name (changelog_topic t) = Some (tp_topic tp)}"
    unfolding changelog_topics_def by blast
  with any [of ?m] have "last (trace (update_channels ?m))
     = EvPausePartitions
         {tp \<in> consumer_assignment (app ?m).
            \<exists>t \<in> set (values_of ?m). get_topic_name (changelog_topic t) = Some (tp_topic tp)}"
    by simp
  with any [of m] show ?thesis by blast
qed

section \<open>Recovery completion\<close>

text \<open>
  Claim C4. \<open>on_recovery_completed\<close> returns normally and calls
  \<open>resume_partitions\<close> once, with exactly the assigned partitions whose topic is
  not in \<open>changelog_topics\<close>: no changelog partition is in the resumed set, and
  every assigned partition is either resumed or a changelog partition. After any
  sequence of calls on a fresh manager, \<open>changelog_topics\<close> is the set of the
  registered tables' changelog topic names.
\<close>

theorem on_recovery_completed_resumes:
  "fst (on_recovery_completed m) = Inr ()
   \<and> filter is_resume_partitions (new_events m (snd (on_recovery_completed m)))
       = [EvResumePartitions
            {tp \<in> consumer_assignment (app m). tp_topic tp \<notin> changelog_topics m}]
   \<and> {tp \<in> consumer_assignment (app m). tp_topic tp \<notin> changelog_topics m}
       \<inter> {tp. is_changelog_tp m tp} = {}
   \<and> {tp \<in> consumer_assignment (app m). tp_topic tp \<notin> changelog_topics m}
       \<union> {tp \<in> consumer_assignment (app m). is_changelog_tp m tp} = consumer_assignment (app m)
   \<and> changelog_topics (run (init a) cs)
       = {k. \<exists>t \<in> set (values_of (run (init a) cs)).
               get_topic_name (changelog_topic t) = Some k}"
proof -
  have "registry_ok (run (init a) cs)"
    by (simp add: registry_ok_init registry_ok_run)
  then have "dom (priv_changelogs (run (init a) cs))
       = {k. \<exists>t \<in> set (values_of (run (init a) cs)).
               get_topic_name (changelog_topic t) = Some k}"
    unfolding registry_ok_def by blast
  then have reach: "changelog_topics (run (init a) cs)
       = {k. \<exists>t \<in> set (values_of (run (init a) cs)).
               get_topic_name (changelog_topic t) = Some k}"
    unfolding changelog_topics_def by blast
  have "fst (on_recovery_completed m) = Inr ()
   \<and> filter is_resume_partitions (new_events m (snd (on_recovery_completed m)))
       = [EvResumePartitions
            {tp \<in> consumer_assignment (app m). tp_topic tp \<notin> changelog_topics m}]
   \<and> {tp \<in> consumer_assignment (app m). tp_topic tp \<notin> changelog_topics m}
       \<inter> {tp. is_changelog_tp m tp} = {}
   \<and> {tp \<in> consumer_assignment (app m). tp_topic tp \<notin> changelog_topics m}
       \<union> {tp \<in> consumer_assignment (app m). is_changelog_tp m tp} = consumer_assignment (app m)"
    by (auto simp add: on_recovery_completed_eq new_events_def is_changelog_tp_def)
  with reach show ?thesis by blast
qed

section \<open>Shutdown\<close>

text \<open>
  Claim C7. The effects of \<open>on_stop\<close> are, in this order: the fetcher is stopped;
  the recovery coordinator is stopped if \<open>_recovery\<close> holds one and not otherwise;
  every registered table is stopped, in the order of \<open>values()\<close>. \<open>on_stop\<close>
  creates no coordinator and leaves \<open>_recovery\<close> as it was.
\<close>

theorem on_stop_order:
  "new_events m (on_stop m)
     = [EvFetcherStop]
       @ (case priv_recovery m of None \<Rightarrow> [] | Some r \<Rightarrow> [EvRecoveryStop r])
       @ map EvTableStop (values_of m)
   \<and> priv_recovery (on_stop m) = priv_recovery m
   \<and> (\<forall>r. EvRecoveryCreated r \<notin> set (new_events m (on_stop m)))"
  by (auto simp add: on_stop_eq new_events_def split: option.splits)

text \<open>
  Claim C10. With no table registered, \<open>asyncio.wait\<close> on the empty list of
  callbacks would raise; \<open>on_recovery_completed\<close> skips it, returns normally, and
  still seeks, sets \<open>recovery_completed\<close>, resumes the assigned partitions that
  are not changelog partitions, starts the fetcher and clears \<open>app.rebalancing\<close>.
\<close>

theorem on_recovery_completed_no_tables:
  "values_of m = [] \<Longrightarrow>
     fst (asyncio_wait (map CallRecoverCallbacks (values_of m)) m) = Inl EmptyWaitSet
     \<and> fst (on_recovery_completed m) = Inr ()
     \<and> new_events m (snd (on_recovery_completed m))
         = [EvLogInfo ''Restore complete!'', EvLogInfo ''Perform seek'', EvPerformSeek,
            EvRecoveryCompletedSet,
            EvResumePartitions
              {tp \<in> consumer_assignment (app m). tp_topic tp \<notin> changelog_topics m},
            EvFetcherMaybeStart, EvRebalancingSet False, EvLogInfo ''Worker ready'']
     \<and> recovery_completed (snd (on_recovery_completed m))
     \<and> \<not> rebalancing (app (snd (on_recovery_completed m)))"
  by (simp add: on_recovery_completed_eq new_events_def is_changelog_tp_def asyncio_wait_def)

theorem on_recovery_completed_no_tables_witness:
  "values_of (init example_app) = []
   \<and> fst (on_recovery_completed (init example_app)) = Inr ()
   \<and> new_events (init example_app) (snd (on_recovery_completed (init example_app)))
         = [EvLogInfo ''Restore complete!'', EvLogInfo ''Perform seek'', EvPerformSeek,
            EvRecoveryCompletedSet,
            EvResumePartitions {TP ''orders-changelog'' 0, TP ''orders'' 0},
            EvFetcherMaybeStart, EvRebalancingSet False, EvLogInfo ''Worker ready'']
   \<and> recovery_completed (snd (on_recovery_completed (init example_app)))
   \<and> \<not> rebalancing (app (snd (on_recovery_completed (init example_app))))"
proof -
  have v: "values_of (init example_app) = []"
    by (simp add: values_of_def init_def)
  have S: "{tp \<in> consumer_assignment (app (init example_app)).
              tp_topic tp \<notin> changelog_topics (init example_app)}
           = {TP ''orders-changelog'' 0, TP ''orders'' 0}"
    by (auto simp add: init_def example_app_def changelog_topics_def)
  from on_recovery_completed_no_tables [OF v] v show ?thesis
    unfolding S by simp
qed


section \<open>The latches\<close>

lemma step_started: "priv_recovery_started m \<Longrightarrow> priv_recovery_started (step m c)"
  by (cases c)
    (simp_all add: add_frame on_start_frame update_channels_frame on_stop_eq on_rebalance_frame
      on_recovery_completed_eq changelog_queue_frame recovery_frame)

lemma step_completed: "recovery_completed m \<Longrightarrow> recovery_completed (step m c)"
  by (cases c)
    (simp_all add: add_frame on_start_frame update_channels_frame on_stop_eq on_rebalance_frame
      on_recovery_completed_eq changelog_queue_frame recovery_frame)

lemma step_starts:
  "\<not> priv_recovery_started m \<Longrightarrow> priv_recovery_started (step m c) \<Longrightarrow> \<exists>A R N. c = OnRebalance A R N"
  by (cases c)
    (simp_all add: add_frame on_start_frame update_channels_frame on_stop_eq
      on_recovery_completed_eq changelog_queue_frame recovery_frame)

lemma step_completes:
  "\<not> recovery_completed m \<Longrightarrow> recovery_completed (step m c) \<Longrightarrow> c = OnRecoveryCompleted"
  by (cases c)
    (simp_all add: add_frame on_start_frame update_channels_frame on_stop_eq on_rebalance_frame
      changelog_queue_frame recovery_frame)

lemma run_started: "priv_recovery_started m \<Longrightarrow> priv_recovery_started (run m cs)"
  by (induction cs rule: rev_induct) (simp_all add: run_def step_started)

lemma run_completed: "recovery_completed m \<Longrightarrow> recovery_completed (run m cs)"
  by (induction cs rule: rev_induct) (simp_all add: run_def step_completed)

text \<open>
  Claim C6. Both flags are unset in a fresh manager; \<open>on_rebalance\<close> sets
  \<open>_recovery_started\<close> and \<open>on_recovery_completed\<close> sets
  \<open>recovery_completed\<close>; a flag that is set stays set through every call and every
  sequence of calls; and the only call that sets \<open>_recovery_started\<close> is
  \<open>on_rebalance\<close>, the only call that sets \<open>recovery_completed\<close> is
  \<open>on_recovery_completed\<close>.
\<close>

theorem latches_are_one_shot:
  "\<not> priv_recovery_started (init a) \<and> \<not> recovery_completed (init a)
   \<and> priv_recovery_started (on_rebalance A R N m)
   \<and> recovery_completed (snd (on_recovery_completed m))
   \<and> (priv_recovery_started m \<longrightarrow> priv_recovery_started (step m c))
   \<and> (recovery_completed m \<longrightarrow> recovery_completed (step m c))
   \<and> (priv_recovery_started m \<longrightarrow> priv_recovery_started (run m cs))
   \<and> (recovery_completed m \<longrightarrow> recovery_completed (run m cs))
   \<and> (\<not> priv_recovery_started m \<and> priv_recovery_started (step m c) \<longrightarrow>
        (\<exists>A R N. c = OnRebalance A R N))
   \<and> (\<not> recovery_completed m \<and> recovery_completed (step m c) \<longrightarrow> c = OnRecoveryCompleted)"
  using step_started [of m c] step_completed [of m c] run_started [of m cs]
    run_completed [of m cs] step_starts [of m c] step_completes [of m c]
  by (simp add: init_def on_rebalance_frame on_recovery_completed_eq)

theorem latches_are_one_shot_witness:
  "priv_recovery_started (on_rebalance {} {} {} (init example_app))
   \<and> priv_recovery_started
       (run (on_rebalance {} {} {} (init example_app))
          [Add orders_table, OnStart, UpdateChannels, OnRecoveryCompleted, OnStop,
           OnRebalance {} {} {}])
   \<and> recovery_completed (snd (on_recovery_completed (init example_app)))
   \<and> recovery_completed
       (run (snd (on_recovery_completed (init example_app)))
          [Add orders_table, OnStart, UpdateChannels, OnRebalance {} {} {}, OnStop,
           OnRecoveryCompleted])
   \<and> \<not> priv_recovery_started (init example_app)
   \<and> priv_recovery_started (step (init example_app) (OnRebalance {} {} {}))
   \<and> \<not> recovery_completed (init example_app)
   \<and> recovery_completed (step (init example_app) OnRecoveryCompleted)"
  using latches_are_one_shot [of example_app "{}" "{}" "{}" "init example_app"
      "OnRebalance {} {} {}"
      "[]"]
    latches_are_one_shot [of example_app "{}" "{}" "{}" "init example_app"
      OnRecoveryCompleted "[]"]
    latches_are_one_shot [of example_app "{}" "{}" "{}" "on_rebalance {} {} {} (init example_app)"
      OnStop
      "[Add orders_table, OnStart, UpdateChannels, OnRecoveryCompleted, OnStop,
           OnRebalance {} {} {}]"]
    latches_are_one_shot [of example_app "{}" "{}" "{}" "snd (on_recovery_completed (init example_app))"
      OnStop
      "[Add orders_table, OnStart, UpdateChannels, OnRebalance {} {} {}, OnStop,
           OnRecoveryCompleted]"]
  by simp

section \<open>Rebalance\<close>

text \<open>Order in a trace, by position.\<close>

lemma precedes_split:
  assumes "b \<notin> set xs" "a \<noteq> b" "b \<notin> set ys" "a \<notin> set zs"
  shows "precedes a b (xs @ a # ys @ b # zs)"
proof -
  have "dropWhile (\<lambda>e. e \<noteq> b) ((xs @ a # ys) @ b # zs) = dropWhile (\<lambda>e. e \<noteq> b) (b # zs)"
    using assms by (intro dropWhile_append2) auto
  then have "dropWhile (\<lambda>e. e \<noteq> b) (xs @ a # ys @ b # zs) = b # zs"
    by simp
  with assms show ?thesis
    by (simp add: precedes_def)
qed

lemma precedes_positions:
  "precedes a b tr \<longleftrightarrow>
     a \<in> set tr \<and> b \<in> set tr
     \<and> (\<forall>i j. i < length tr \<and> j < length tr \<and> tr ! i = a \<and> tr ! j = b \<longrightarrow> i < j)"
proof (cases "b \<in> set tr")
  case False
  then show ?thesis by (simp add: precedes_def)
next
  case True
  then obtain xs zs where tr: "tr = xs @ b # zs" and xs: "b \<notin> set xs"
    by (meson split_list_first)
  have "dropWhile (\<lambda>e. e \<noteq> b) (xs @ b # zs) = dropWhile (\<lambda>e. e \<noteq> b) (b # zs)"
    using xs by (intro dropWhile_append2) auto
  then have dw: "dropWhile (\<lambda>e. e \<noteq> b) tr = b # zs"
    by (simp add: tr)
  show ?thesis
  proof
    assume p: "precedes a b tr"
    then have a: "a \<in> set tr" "a \<noteq> b" "a \<notin> set zs"
      using dw by (auto simp add: precedes_def)
    have "i < j" if ij: "i < length tr" "j < length tr" "tr ! i = a" "tr ! j = b" for i j
    proof -
      have "i < length xs"
      proof (rule ccontr)
        assume "\<not> i < length xs"
        then have "tr ! i \<in> set (b # zs)"
          using ij(1) unfolding tr by (auto simp add: nth_append nth_Cons split: nat.splits)
        with a ij(3) show False by auto
      qed
      moreover have "length xs \<le> j"
      proof (rule ccontr)
        assume "\<not> length xs \<le> j"
        then have "tr ! j \<in> set xs"
          unfolding tr by (simp add: nth_append)
        with xs ij(4) show False by simp
      qed
      ultimately show ?thesis by simp
    qed
    with p show "a \<in> set tr \<and> b \<in> set tr
       \<and> (\<forall>i j. i < length tr \<and> j < length tr \<and> tr ! i = a \<and> tr ! j = b \<longrightarrow> i < j)"
      by (simp add: precedes_def)
  next
    assume r: "a \<in> set tr \<and> b \<in> set tr
       \<and> (\<forall>i j. i < length tr \<and> j < length tr \<and> tr ! i = a \<and> tr ! j = b \<longrightarrow> i < j)"
    have "a \<notin> set (b # zs)"
    proof
      assume "a \<in> set (b # zs)"
      then obtain k where k: "k < length (b # zs)" "(b # zs) ! k = a"
        by (meson in_set_conv_nth)
      have "tr ! (length xs + k) = a" "length xs + k < length tr" "tr ! length xs = b"
        "length xs < length tr"
        using k unfolding tr by (simp_all add: nth_append)
      with r have "length xs + k < length xs" by blast
      then show False by simp
    qed
    with r dw show "precedes a b tr"
      by (simp add: precedes_def)
  qed
qed

lemma notifications_set:
  "set (concat (map (\<lambda>t. [EvOnPartitionsRevoked t R, EvOnPartitionsAssigned t N]) ts))
     = (\<lambda>t. EvOnPartitionsRevoked t R) ` set ts \<union> (\<lambda>t. EvOnPartitionsAssigned t N) ` set ts"
  by (induction ts) auto

lemma on_rebalance_trace:
  "\<exists>es r. new_events m (on_rebalance A R N m)
       = [EvRecoveryStartedSet]
         @ concat (map (\<lambda>t. [EvOnPartitionsRevoked t R, EvOnPartitionsAssigned t N]) (values_of m))
         @ es
         @ [EvPausePartitions
              {tp \<in> consumer_assignment (app m). tp_topic tp \<in> changelog_topics m}]
         @ (case priv_recovery m of None \<Rightarrow> [EvRecoveryCreated r] | Some r' \<Rightarrow> [])
         @ [EvRecoveryOnRebalance r A R N]
     \<and> (\<forall>e \<in> set es. is_wiring_event e)
     \<and> priv_recovery (on_rebalance A R N m) = Some r"
proof -
  define m1 where "m1 = emit EvRecoveryStartedSet (m\<lparr>priv_recovery_started := True\<rparr>)"
  define m2 where "m2 = notify_tables (values_of m1) R N m1"
  define m3 where "m3 = update_channels m2"
  have v1: "values_of m1 = values_of m"
    by (simp add: m1_def values_of_def)
  have t2: "trace m2 = trace m @ [EvRecoveryStartedSet]
      @ concat (map (\<lambda>t. [EvOnPartitionsRevoked t R, EvOnPartitionsAssigned t N]) (values_of m))"
    by (simp add: m2_def notify_tables_eq v1) (simp add: m1_def)
  have f2: "priv_changelogs m2 = priv_changelogs m" "app m2 = app m" "priv_recovery m2 = priv_recovery m"
    by (simp_all add: m2_def notify_tables_eq m1_def)
  obtain es where t3: "trace m3 = trace m2 @ es @
      [EvPausePartitions (Set.filter (\<lambda>tp. tp_topic tp \<in> dom (priv_changelogs m2))
                            (consumer_assignment (app m2)))]"
    and wiring: "\<forall>e \<in> set es. is_wiring_event e"
    unfolding m3_def using update_channels_trace [of m2] by blast
  have f3: "priv_recovery m3 = priv_recovery m"
    by (simp add: m3_def update_channels_frame f2)
  have t4: "trace (snd (recovery m3)) = trace m3
      @ (case priv_recovery m of None \<Rightarrow> [EvRecoveryCreated (fst (recovery m3))] | Some r' \<Rightarrow> [])"
    by (simp add: recovery_trace f3)
  have slot: "priv_recovery (snd (recovery m3)) = Some (fst (recovery m3))"
    by (simp add: recovery_def Let_def split: option.splits)
  have whole: "on_rebalance A R N m
      = emit (EvRecoveryOnRebalance (fst (recovery m3)) A R N) (snd (recovery m3))"
    by (simp add: on_rebalance_def Let_def case_prod_beta m1_def m2_def m3_def)
  have "new_events m (on_rebalance A R N m)
       = [EvRecoveryStartedSet]
         @ concat (map (\<lambda>t. [EvOnPartitionsRevoked t R, EvOnPartitionsAssigned t N]) (values_of m))
         @ es
         @ [EvPausePartitions
              {tp \<in> consumer_assignment (app m). tp_topic tp \<in> changelog_topics m}]
         @ (case priv_recovery m of None \<Rightarrow> [EvRecoveryCreated (fst (recovery m3))] | Some r' \<Rightarrow> [])
         @ [EvRecoveryOnRebalance (fst (recovery m3)) A R N]"
    unfolding whole by (simp add: new_events_def t4 t3 t2 f2 changelog_topics_def)
  moreover have "priv_recovery (on_rebalance A R N m) = Some (fst (recovery m3))"
    unfolding whole using slot by simp
  ultimately show ?thesis using wiring by blast
qed


text \<open>
  Claim C2. The effects of \<open>on_rebalance\<close> are, in this order:
  \<open>_recovery_started\<close> is set; each registered table, in the order of
  \<open>values()\<close>, is told the revoked partitions and then the newly assigned ones;
  the channels are wired, ending with the pause of the changelog partitions; the
  coordinator (created here if there was none) is called with the same three sets.
  When the registered tables are pairwise different, which they are after any sequence
  of calls on a fresh manager, then for every table the flag is set before its revoked
  notification, its revoked notification is before its assigned notification, and its
  assigned notification is before the revoked notification of every later table.
\<close>

theorem on_rebalance_order:
  "(\<exists>es r. new_events m (on_rebalance A R N m)
       = [EvRecoveryStartedSet]
         @ concat (map (\<lambda>t. [EvOnPartitionsRevoked t R, EvOnPartitionsAssigned t N]) (values_of m))
         @ es
         @ [EvPausePartitions
              {tp \<in> consumer_assignment (app m). tp_topic tp \<in> changelog_topics m}]
         @ (case priv_recovery m of None \<Rightarrow> [EvRecoveryCreated r] | Some r' \<Rightarrow> [])
         @ [EvRecoveryOnRebalance r A R N]
     \<and> (\<forall>e \<in> set es. is_wiring_event e)
     \<and> priv_recovery (on_rebalance A R N m) = Some r
     \<and> precedes
          (EvPausePartitions
             {tp \<in> consumer_assignment (app m). tp_topic tp \<in> changelog_topics m})
          (EvRecoveryOnRebalance r A R N) (new_events m (on_rebalance A R N m)))
   \<and> priv_recovery_started (on_rebalance A R N m)
   \<and> (distinct (values_of m) \<longrightarrow>
        (\<forall>t \<in> set (values_of m).
            precedes EvRecoveryStartedSet (EvOnPartitionsRevoked t R)
              (new_events m (on_rebalance A R N m))
            \<and> precedes (EvOnPartitionsRevoked t R) (EvOnPartitionsAssigned t N)
                (new_events m (on_rebalance A R N m)))
        \<and> (\<forall>ts1 t ts2 t' ts3. values_of m = ts1 @ t # ts2 @ t' # ts3 \<longrightarrow>
              precedes (EvOnPartitionsAssigned t N) (EvOnPartitionsRevoked t' R)
                (new_events m (on_rebalance A R N m))))
   \<and> distinct (values_of (run (init a) cs))"
proof -
  let ?tr = "new_events m (on_rebalance A R N m)"
  let ?X = "\<lambda>ts. concat (map (\<lambda>t. [EvOnPartitionsRevoked t R, EvOnPartitionsAssigned t N]) ts)"
  let ?P = "EvPausePartitions
              {tp \<in> consumer_assignment (app m). tp_topic tp \<in> changelog_topics m}"
  obtain es r where tr: "?tr = [EvRecoveryStartedSet] @ ?X (values_of m) @ es @ [?P]
         @ (case priv_recovery m of None \<Rightarrow> [EvRecoveryCreated r] | Some r' \<Rightarrow> [])
         @ [EvRecoveryOnRebalance r A R N]"
    and wiring: "\<forall>e \<in> set es. is_wiring_event e"
    and slot: "priv_recovery (on_rebalance A R N m) = Some r"
    using on_rebalance_trace [of m A R N] by blast
  define rest where "rest = es @ [?P]
         @ (case priv_recovery m of None \<Rightarrow> [EvRecoveryCreated r] | Some r' \<Rightarrow> [])
         @ [EvRecoveryOnRebalance r A R N]"
  have tr': "?tr = [EvRecoveryStartedSet] @ ?X (values_of m) @ rest"
    by (simp add: tr rest_def)
  have rest: "EvOnPartitionsRevoked t R \<notin> set rest" "EvOnPartitionsAssigned t N \<notin> set rest"
    "EvRecoveryStartedSet \<notin> set rest" for t
    using wiring by (auto simp add: rest_def split: option.splits)
  have X: "set (?X ts) = (\<lambda>t. EvOnPartitionsRevoked t R) ` set ts
      \<union> (\<lambda>t. EvOnPartitionsAssigned t N) ` set ts" for ts
    by (rule notifications_set)
  have forward: "precedes ?P (EvRecoveryOnRebalance r A R N) ?tr"
  proof -
    have "precedes ?P (EvRecoveryOnRebalance r A R N)
        (([EvRecoveryStartedSet] @ ?X (values_of m) @ es) @ ?P
          # (case priv_recovery m of None \<Rightarrow> [EvRecoveryCreated r] | Some r' \<Rightarrow> [])
          @ EvRecoveryOnRebalance r A R N # [])"
      using wiring by (intro precedes_split) (auto simp add: X split: option.splits)
    then show ?thesis by (simp add: tr)
  qed
  have started: "precedes EvRecoveryStartedSet (EvOnPartitionsRevoked t R) ?tr
      \<and> precedes (EvOnPartitionsRevoked t R) (EvOnPartitionsAssigned t N) ?tr"
    if d: "distinct (values_of m)" and t: "t \<in> set (values_of m)" for t
  proof -
    obtain ts1 ts2 where v: "values_of m = ts1 @ t # ts2"
      using t by (meson split_list)
    with d have nin: "t \<notin> set ts1" "t \<notin> set ts2"
      by auto
    have "precedes EvRecoveryStartedSet (EvOnPartitionsRevoked t R)
        ([] @ EvRecoveryStartedSet # ?X ts1 @ EvOnPartitionsRevoked t R
           # (EvOnPartitionsAssigned t N # ?X ts2 @ rest))"
      using nin rest by (intro precedes_split) (auto simp add: X)
    moreover have "precedes (EvOnPartitionsRevoked t R) (EvOnPartitionsAssigned t N)
        (([EvRecoveryStartedSet] @ ?X ts1) @ EvOnPartitionsRevoked t R # []
           @ EvOnPartitionsAssigned t N # (?X ts2 @ rest))"
      using nin rest by (intro precedes_split) (auto simp add: X)
    ultimately show ?thesis
      by (simp add: tr' v)
  qed
  have "next": "precedes (EvOnPartitionsAssigned t N) (EvOnPartitionsRevoked t' R) ?tr"
    if d: "distinct (values_of m)" and v: "values_of m = ts1 @ t # ts2 @ t' # ts3"
    for ts1 t ts2 t' ts3
  proof -
    from d v have nin: "t \<noteq> t'" "t \<notin> set ts2" "t \<notin> set ts3" "t' \<notin> set ts1" "t' \<notin> set ts2"
      by auto
    have "precedes (EvOnPartitionsAssigned t N) (EvOnPartitionsRevoked t' R)
        (([EvRecoveryStartedSet] @ ?X ts1 @ [EvOnPartitionsRevoked t R])
           @ EvOnPartitionsAssigned t N # ?X ts2
           @ EvOnPartitionsRevoked t' R # (EvOnPartitionsAssigned t' N # ?X ts3 @ rest))"
      using nin rest by (intro precedes_split) (auto simp add: X)
    then show ?thesis
      by (simp add: tr' v)
  qed
  have reach: "distinct (values_of (run (init a) cs))"
    by (simp add: registry_ok_init registry_ok_run registry_ok_distinct_values)
  have flag: "priv_recovery_started (on_rebalance A R N m)"
    by (simp add: on_rebalance_frame)
  from tr wiring slot forward have first: "\<exists>es r. ?tr = [EvRecoveryStartedSet] @ ?X (values_of m) @ es @ [?P]
         @ (case priv_recovery m of None \<Rightarrow> [EvRecoveryCreated r] | Some r' \<Rightarrow> [])
         @ [EvRecoveryOnRebalance r A R N]
     \<and> (\<forall>e \<in> set es. is_wiring_event e)
     \<and> priv_recovery (on_rebalance A R N m) = Some r
     \<and> precedes ?P (EvRecoveryOnRebalance r A R N) ?tr"
    by blast
  from started "next" have order: "distinct (values_of m) \<longrightarrow>
        (\<forall>t \<in> set (values_of m).
            precedes EvRecoveryStartedSet (EvOnPartitionsRevoked t R) ?tr
            \<and> precedes (EvOnPartitionsRevoked t R) (EvOnPartitionsAssigned t N) ?tr)
        \<and> (\<forall>ts1 t ts2 t' ts3. values_of m = ts1 @ t # ts2 @ t' # ts3 \<longrightarrow>
              precedes (EvOnPartitionsAssigned t N) (EvOnPartitionsRevoked t' R) ?tr)"
    by blast
  from first flag order reach show ?thesis
    by (intro conjI)
qed


theorem on_rebalance_order_witness:
  "distinct (values_of (run (init example_app) [Add orders_table, Add payments_table]))
   \<and> precedes EvRecoveryStartedSet (EvOnPartitionsRevoked orders_table {})
       (new_events (run (init example_app) [Add orders_table, Add payments_table])
          (on_rebalance {TP ''orders-changelog'' 0} {} {TP ''orders-changelog'' 0}
             (run (init example_app) [Add orders_table, Add payments_table])))
   \<and> precedes (EvOnPartitionsRevoked orders_table {})
       (EvOnPartitionsAssigned orders_table {TP ''orders-changelog'' 0})
       (new_events (run (init example_app) [Add orders_table, Add payments_table])
          (on_rebalance {TP ''orders-changelog'' 0} {} {TP ''orders-changelog'' 0}
             (run (init example_app) [Add orders_table, Add payments_table])))
   \<and> precedes (EvOnPartitionsAssigned orders_table {TP ''orders-changelog'' 0})
       (EvOnPartitionsRevoked payments_table {})
       (new_events (run (init example_app) [Add orders_table, Add payments_table])
          (on_rebalance {TP ''orders-changelog'' 0} {} {TP ''orders-changelog'' 0}
             (run (init example_app) [Add orders_table, Add payments_table])))"
proof -
  let ?m = "run (init example_app) [Add orders_table, Add payments_table]"
  let ?A = "{TP ''orders-changelog'' 0}"
  let ?tr = "new_events ?m (on_rebalance ?A {} ?A ?m)"
  have v: "values_of ?m = [orders_table, payments_table]"
    by (simp add: two_adds values_of_def)
  have d: "distinct (values_of ?m)"
    unfolding v by (simp add: orders_table_def payments_table_def)
  from on_rebalance_order [of ?m ?A "{}" ?A] d
  have each: "\<forall>t \<in> set (values_of ?m).
            precedes EvRecoveryStartedSet (EvOnPartitionsRevoked t {}) ?tr
            \<and> precedes (EvOnPartitionsRevoked t {}) (EvOnPartitionsAssigned t ?A) ?tr"
    and pairs: "\<forall>ts1 t ts2 t' ts3. values_of ?m = ts1 @ t # ts2 @ t' # ts3 \<longrightarrow>
              precedes (EvOnPartitionsAssigned t ?A) (EvOnPartitionsRevoked t' {}) ?tr"
    by blast+
  have "orders_table \<in> set (values_of ?m)"
    by (simp add: v)
  with each have 1: "precedes EvRecoveryStartedSet (EvOnPartitionsRevoked orders_table {}) ?tr"
    "precedes (EvOnPartitionsRevoked orders_table {}) (EvOnPartitionsAssigned orders_table ?A) ?tr"
    by blast+
  have "values_of ?m = [] @ orders_table # [] @ payments_table # []"
    by (simp add: v)
  with pairs have 2: "precedes (EvOnPartitionsAssigned orders_table ?A)
      (EvOnPartitionsRevoked payments_table {}) ?tr"
    by blast
  from d 1 2 show ?thesis by blast
qed

section \<open>Order of recovery completion\<close>

text \<open>
  Claim C3. \<open>on_recovery_completed\<close> returns normally, and its effects are, in
  this order: the wait for the recovered-callbacks of all registered tables (one
  coroutine per table; no wait when there is no table), the seek, the setting of
  \<open>recovery_completed\<close>, the resuming of partitions, the start of the fetcher, and
  the clearing of \<open>app.rebalancing\<close>.
\<close>

theorem on_recovery_completed_order:
  "fst (on_recovery_completed m) = Inr ()
   \<and> new_events m (snd (on_recovery_completed m))
       = [EvLogInfo ''Restore complete!'']
         @ (if values_of m = [] then []
            else [EvAsyncioWait (map CallRecoverCallbacks (values_of m))])
         @ [EvLogInfo ''Perform seek'', EvPerformSeek, EvRecoveryCompletedSet,
            EvResumePartitions
              {tp \<in> consumer_assignment (app m). tp_topic tp \<notin> changelog_topics m},
            EvFetcherMaybeStart, EvRebalancingSet False, EvLogInfo ''Worker ready'']
   \<and> (values_of m \<noteq> [] \<longrightarrow>
        precedes (EvAsyncioWait (map CallRecoverCallbacks (values_of m))) EvPerformSeek
          (new_events m (snd (on_recovery_completed m))))
   \<and> precedes EvPerformSeek EvRecoveryCompletedSet
        (new_events m (snd (on_recovery_completed m)))
   \<and> precedes EvRecoveryCompletedSet
        (EvResumePartitions
           {tp \<in> consumer_assignment (app m). tp_topic tp \<notin> changelog_topics m})
        (new_events m (snd (on_recovery_completed m)))
   \<and> precedes
        (EvResumePartitions
           {tp \<in> consumer_assignment (app m). tp_topic tp \<notin> changelog_topics m})
        EvFetcherMaybeStart (new_events m (snd (on_recovery_completed m)))
   \<and> precedes
        (EvResumePartitions
           {tp \<in> consumer_assignment (app m). tp_topic tp \<notin> changelog_topics m})
        (EvRebalancingSet False) (new_events m (snd (on_recovery_completed m)))"
proof -
  let ?S = "{tp \<in> consumer_assignment (app m). tp_topic tp \<notin> changelog_topics m}"
  let ?tr = "new_events m (snd (on_recovery_completed m))"
  have tr: "?tr = [EvLogInfo ''Restore complete!'']
         @ (if values_of m = [] then []
            else [EvAsyncioWait (map CallRecoverCallbacks (values_of m))])
         @ [EvLogInfo ''Perform seek'', EvPerformSeek, EvRecoveryCompletedSet,
            EvResumePartitions ?S,
            EvFetcherMaybeStart, EvRebalancingSet False, EvLogInfo ''Worker ready'']"
    by (simp add: on_recovery_completed_eq new_events_def is_changelog_tp_def)
  have ret: "fst (on_recovery_completed m) = Inr ()"
    by (simp add: on_recovery_completed_eq)
  have barrier: "precedes (EvAsyncioWait (map CallRecoverCallbacks (values_of m))) EvPerformSeek ?tr"
    if "values_of m \<noteq> []"
    unfolding tr using that by (simp add: precedes_def)
  have seek: "precedes EvPerformSeek EvRecoveryCompletedSet ?tr"
    unfolding tr by (simp add: precedes_def)
  have latch: "precedes EvRecoveryCompletedSet (EvResumePartitions ?S) ?tr"
    unfolding tr by (simp add: precedes_def)
  have fetcher: "precedes (EvResumePartitions ?S) EvFetcherMaybeStart ?tr"
    unfolding tr by (simp add: precedes_def)
  have flag: "precedes (EvResumePartitions ?S) (EvRebalancingSet False) ?tr"
    unfolding tr by (simp add: precedes_def)
  from ret tr barrier seek latch fetcher flag show ?thesis by blast
qed

theorem on_recovery_completed_order_witness:
  "values_of (snd (add orders_table (init example_app))) \<noteq> []
   \<and> precedes (EvAsyncioWait [CallRecoverCallbacks orders_table]) EvPerformSeek
       (new_events (snd (add orders_table (init example_app)))
          (snd (on_recovery_completed (snd (add orders_table (init example_app))))))"
proof -
  let ?m = "snd (add orders_table (init example_app))"
  have v: "values_of ?m = [orders_table]"
    by (simp add: add_def Let_def contains_def init_def values_of_def orders_table_def)
  then have ne: "values_of ?m \<noteq> []" by simp
  with on_recovery_completed_order [of ?m]
  have "precedes (EvAsyncioWait (map CallRecoverCallbacks (values_of ?m))) EvPerformSeek
       (new_events ?m (snd (on_recovery_completed ?m)))"
    by blast
  then have "precedes (EvAsyncioWait [CallRecoverCallbacks orders_table]) EvPerformSeek
       (new_events ?m (snd (on_recovery_completed ?m)))"
    by (simp add: v)
  with ne show ?thesis by blast
qed

section \<open>The lazy singletons\<close>

lemma created_has_queue: "is_queue_created e \<Longrightarrow> queue_of e \<noteq> None"
  by (cases e) simp_all

lemma created_has_recovery: "is_recovery_created e \<Longrightarrow> recovery_of e \<noteq> None"
  by (cases e) simp_all

lemma queue_once_append:
  assumes "queue_once m" "priv_changelog_queue m' = priv_changelog_queue m"
    "trace m' = trace m @ es" "\<forall>e \<in> set es. queue_of e = None"
  shows "queue_once m'"
proof -
  have "filter is_queue_created es = []"
    using assms(4) created_has_queue by (fastforce simp add: filter_empty_conv)
  with assms show ?thesis
    by (auto simp add: queue_once_def)
qed

lemma recovery_once_append:
  assumes "recovery_once m" "priv_recovery m' = priv_recovery m"
    "trace m' = trace m @ es" "\<forall>e \<in> set es. recovery_of e = None"
  shows "recovery_once m'"
proof -
  have "filter is_recovery_created es = []"
    using assms(4) created_has_recovery by (fastforce simp add: filter_empty_conv)
  with assms show ?thesis
    by (auto simp add: recovery_once_def)
qed

lemma changelog_queue_slot:
  "priv_changelog_queue (snd (changelog_queue m)) = Some (fst (changelog_queue m))"
  by (simp add: changelog_queue_def Let_def split: option.splits)

lemma changelog_queue_read: "priv_changelog_queue m = Some q \<Longrightarrow> changelog_queue m = (q, m)"
  by (simp add: changelog_queue_def)

lemma recovery_slot: "priv_recovery (snd (recovery m)) = Some (fst (recovery m))"
  by (simp add: recovery_def Let_def split: option.splits)

lemma recovery_read: "priv_recovery m = Some r \<Longrightarrow> recovery m = (r, m)"
  by (simp add: recovery_def)

lemma queue_once_changelog_queue: "queue_once m \<Longrightarrow> queue_once (snd (changelog_queue m))"
  by (auto simp add: queue_once_def changelog_queue_def Let_def emit_def split: option.splits)

lemma recovery_once_recovery: "recovery_once m \<Longrightarrow> recovery_once (snd (recovery m))"
  by (auto simp add: recovery_once_def recovery_def Let_def emit_def split: option.splits)

lemma queue_once_wire_table: "queue_once m \<Longrightarrow> queue_once (wire_table t m)"
  by (auto simp add: queue_once_def wire_table_def changelog_queue_def Let_def emit_def
      split: option.splits)

lemma queue_once_wire_tables: "queue_once m \<Longrightarrow> queue_once (wire_tables ts m)"
  by (induction ts arbitrary: m) (simp_all add: queue_once_wire_table)

lemma queue_once_update_channels: "queue_once m \<Longrightarrow> queue_once (update_channels m)"
proof -
  assume "queue_once m"
  then have "queue_once (wire_tables (values_of m) m)"
    by (rule queue_once_wire_tables)
  then show ?thesis
    unfolding update_channels_def Let_def
    by (rule queue_once_append [where es = "[EvPausePartitions
          (Set.filter (\<lambda>tp. tp_topic tp \<in> dom (priv_changelogs (wire_tables (values_of m) m)))
             (consumer_assignment (app (wire_tables (values_of m) m))))]"]) simp_all
qed


lemma queue_once_emit: "queue_once m \<Longrightarrow> queue_of e = None \<Longrightarrow> queue_once (emit e m)"
  by (rule queue_once_append [where es = "[e]"]) simp_all

lemma queue_once_recovery: "queue_once m \<Longrightarrow> queue_once (snd (recovery m))"
  by (rule queue_once_append
      [where es = "case priv_recovery m of
                     None \<Rightarrow> [EvRecoveryCreated (fst (recovery m))] | Some r \<Rightarrow> []"])
    (simp_all add: recovery_frame recovery_trace split: option.splits)

lemma queue_once_notify_tables: "queue_once m \<Longrightarrow> queue_once (notify_tables ts R N m)"
  by (induction ts arbitrary: m) (simp_all add: queue_once_emit)

lemma queue_once_stop_tables: "queue_once m \<Longrightarrow> queue_once (stop_tables ts m)"
  by (induction ts arbitrary: m) (simp_all add: queue_once_emit)

lemma queue_once_cong:
  "trace m' = trace m \<Longrightarrow> priv_changelog_queue m' = priv_changelog_queue m \<Longrightarrow>
     queue_once m' = queue_once m"
  by (simp add: queue_once_def)

lemma queue_once_on_start: "queue_once m \<Longrightarrow> queue_once (on_start m)"
  by (simp add: on_start_def Let_def case_prod_beta queue_once_emit queue_once_recovery
      queue_once_update_channels)

lemma queue_once_on_stop: "queue_once m \<Longrightarrow> queue_once (on_stop m)"
  by (simp add: on_stop_def Let_def recovery_truthy_def queue_once_emit queue_once_stop_tables
      split: option.splits)

lemma queue_once_on_rebalance: "queue_once m \<Longrightarrow> queue_once (on_rebalance A R N m)"
proof -
  assume "queue_once m"
  then have "queue_once (m\<lparr>priv_recovery_started := True\<rparr>)"
    by (simp add: queue_once_cong [of "m\<lparr>priv_recovery_started := True\<rparr>" m])
  then show ?thesis
    by (simp add: on_rebalance_def Let_def case_prod_beta queue_once_emit queue_once_recovery
        queue_once_update_channels queue_once_notify_tables)
qed

lemma queue_once_on_recovery_completed:
  "queue_once m \<Longrightarrow> queue_once (snd (on_recovery_completed m))"
  by (rule queue_once_append
      [where es = "[EvLogInfo ''Restore complete!'']
          @ (if values_of m = [] then []
             else [EvAsyncioWait (map CallRecoverCallbacks (values_of m))])
          @ [EvLogInfo ''Perform seek'', EvPerformSeek, EvRecoveryCompletedSet,
             EvResumePartitions
               (Set.filter (\<lambda>tp. \<not> is_changelog_tp m tp) (consumer_assignment (app m))),
             EvFetcherMaybeStart, EvRebalancingSet False, EvLogInfo ''Worker ready'']"])
    (simp_all add: on_recovery_completed_eq)

lemma queue_once_step: "queue_once m \<Longrightarrow> queue_once (step m c)"
proof (cases c)
  case (Add t)
  assume "queue_once m"
  then show ?thesis
    using Add by (simp add: queue_once_cong [of "snd (add t m)" m] add_frame)
next
  case (ConsumerAssigned S)
  assume "queue_once m"
  then show ?thesis
    using ConsumerAssigned by (simp add: queue_once_def)
qed (simp_all add: queue_once_on_start queue_once_update_channels queue_once_on_stop
    queue_once_on_rebalance queue_once_on_recovery_completed queue_once_changelog_queue
    queue_once_recovery)

lemma queue_once_run: "queue_once m \<Longrightarrow> queue_once (run m cs)"
  by (induction cs rule: rev_induct) (simp_all add: run_def queue_once_step)

lemma queue_once_init: "queue_once (init a)"
  by (simp add: queue_once_def init_def)

lemma recovery_once_emit: "recovery_once m \<Longrightarrow> recovery_of e = None \<Longrightarrow> recovery_once (emit e m)"
  by (rule recovery_once_append [where es = "[e]"]) simp_all

lemma recovery_once_use:
  "recovery_once m \<Longrightarrow> priv_recovery m = Some r \<Longrightarrow> recovery_of e = Some r \<Longrightarrow>
     \<not> is_recovery_created e \<Longrightarrow> recovery_once (emit e m)"
  by (auto simp add: recovery_once_def emit_def)

lemma recovery_once_cong:
  "trace m' = trace m \<Longrightarrow> priv_recovery m' = priv_recovery m \<Longrightarrow>
     recovery_once m' = recovery_once m"
  by (simp add: recovery_once_def)

lemma recovery_once_update_channels: "recovery_once m \<Longrightarrow> recovery_once (update_channels m)"
proof -
  assume ok: "recovery_once m"
  obtain es where es: "trace (update_channels m) = trace m @ es @
      [EvPausePartitions (Set.filter (\<lambda>tp. tp_topic tp \<in> dom (priv_changelogs m))
                            (consumer_assignment (app m)))]"
    and wiring: "\<forall>e \<in> set es. is_wiring_event e"
    using update_channels_trace [of m] by blast
  have "recovery_of e = None" if "is_wiring_event e" for e
    using that by (cases e) simp_all
  with wiring have "\<forall>e \<in> set (es @
      [EvPausePartitions (Set.filter (\<lambda>tp. tp_topic tp \<in> dom (priv_changelogs m))
                            (consumer_assignment (app m)))]). recovery_of e = None"
    by simp
  with ok es show ?thesis
    by (intro recovery_once_append [of m "update_channels m"] update_channels_frame)
qed

lemma recovery_once_notify_tables: "recovery_once m \<Longrightarrow> recovery_once (notify_tables ts R N m)"
  by (induction ts arbitrary: m) (simp_all add: recovery_once_emit)

lemma recovery_once_stop_tables: "recovery_once m \<Longrightarrow> recovery_once (stop_tables ts m)"
  by (induction ts arbitrary: m) (simp_all add: recovery_once_emit)

lemma recovery_once_changelog_queue: "recovery_once m \<Longrightarrow> recovery_once (snd (changelog_queue m))"
  by (rule recovery_once_append
      [where es = "case priv_changelog_queue m of
                     None \<Rightarrow> [EvFlowControlQueue (fst (changelog_queue m))] | Some q \<Rightarrow> []"])
    (simp_all add: changelog_queue_frame changelog_queue_trace split: option.splits)

lemma recovery_once_on_start: "recovery_once m \<Longrightarrow> recovery_once (on_start m)"
proof -
  assume "recovery_once m"
  then have "recovery_once (emit (EvSleep 1) m)"
    by (simp add: recovery_once_emit)
  then have "recovery_once (update_channels (emit (EvSleep 1) m))"
    by (rule recovery_once_update_channels)
  then have "recovery_once (snd (recovery (update_channels (emit (EvSleep 1) m))))"
    by (rule recovery_once_recovery)
  then have "recovery_once
      (emit (EvRecoveryStart (fst (recovery (update_channels (emit (EvSleep 1) m)))))
         (snd (recovery (update_channels (emit (EvSleep 1) m)))))"
    by (rule recovery_once_use [OF _ recovery_slot]) simp_all
  then show ?thesis
    by (simp add: on_start_def Let_def case_prod_beta)
qed

lemma recovery_once_on_stop: "recovery_once m \<Longrightarrow> recovery_once (on_stop m)"
  by (auto simp add: on_stop_eq recovery_once_def split: option.splits)

lemma recovery_once_on_rebalance: "recovery_once m \<Longrightarrow> recovery_once (on_rebalance A R N m)"
proof -
  define m1 where "m1 = emit EvRecoveryStartedSet (m\<lparr>priv_recovery_started := True\<rparr>)"
  define m3 where "m3 = update_channels (notify_tables (values_of m1) R N m1)"
  assume "recovery_once m"
  then have "recovery_once (m\<lparr>priv_recovery_started := True\<rparr>)"
    by (simp add: recovery_once_cong [of "m\<lparr>priv_recovery_started := True\<rparr>" m])
  then have "recovery_once m1"
    unfolding m1_def by (simp add: recovery_once_emit)
  then have "recovery_once (notify_tables (values_of m1) R N m1)"
    by (rule recovery_once_notify_tables)
  then have "recovery_once m3"
    unfolding m3_def by (rule recovery_once_update_channels)
  then have "recovery_once (snd (recovery m3))"
    by (rule recovery_once_recovery)
  then have "recovery_once
      (emit (EvRecoveryOnRebalance (fst (recovery m3)) A R N) (snd (recovery m3)))"
    by (rule recovery_once_use [OF _ recovery_slot]) simp_all
  then show ?thesis
    by (simp add: on_rebalance_def Let_def case_prod_beta m1_def m3_def)
qed

lemma recovery_once_on_recovery_completed:
  "recovery_once m \<Longrightarrow> recovery_once (snd (on_recovery_completed m))"
  by (rule recovery_once_append
      [where es = "[EvLogInfo ''Restore complete!'']
          @ (if values_of m = [] then []
             else [EvAsyncioWait (map CallRecoverCallbacks (values_of m))])
          @ [EvLogInfo ''Perform seek'', EvPerformSeek, EvRecoveryCompletedSet,
             EvResumePartitions
               (Set.filter (\<lambda>tp. \<not> is_changelog_tp m tp) (consumer_assignment (app m))),
             EvFetcherMaybeStart, EvRebalancingSet False, EvLogInfo ''Worker ready'']"])
    (simp_all add: on_recovery_completed_eq)

lemma recovery_once_step: "recovery_once m \<Longrightarrow> recovery_once (step m c)"
proof (cases c)
  case (Add t)
  assume "recovery_once m"
  then show ?thesis
    using Add by (simp add: recovery_once_cong [of "snd (add t m)" m] add_frame)
next
  case (ConsumerAssigned S)
  assume "recovery_once m"
  then show ?thesis
    using ConsumerAssigned by (simp add: recovery_once_def)
qed (simp_all add: recovery_once_on_start recovery_once_update_channels recovery_once_on_stop
    recovery_once_on_rebalance recovery_once_on_recovery_completed
    recovery_once_changelog_queue recovery_once_recovery)

lemma recovery_once_run: "recovery_once m \<Longrightarrow> recovery_once (run m cs)"
  by (induction cs rule: rev_induct) (simp_all add: run_def recovery_once_step)

lemma recovery_once_init: "recovery_once (init a)"
  by (simp add: recovery_once_def init_def)

text \<open>A filled slot is never refilled.\<close>

lemma wire_table_queue_kept:
  "priv_changelog_queue m = Some q \<Longrightarrow> priv_changelog_queue (wire_table t m) = Some q"
  by (simp add: wire_table_def Let_def case_prod_beta changelog_queue_read)

lemma wire_tables_queue_kept:
  "priv_changelog_queue m = Some q \<Longrightarrow> priv_changelog_queue (wire_tables ts m) = Some q"
  by (induction ts arbitrary: m) (simp_all add: wire_table_queue_kept)

lemma update_channels_queue_kept:
  "priv_changelog_queue m = Some q \<Longrightarrow> priv_changelog_queue (update_channels m) = Some q"
  by (simp add: update_channels_def Let_def wire_tables_queue_kept)

lemma step_queue_kept:
  "priv_changelog_queue m = Some q \<Longrightarrow> priv_changelog_queue (step m c) = Some q"
  by (cases c)
    (simp_all add: add_frame on_start_def on_rebalance_def Let_def case_prod_beta
      update_channels_queue_kept recovery_frame notify_tables_eq on_stop_eq
      on_recovery_completed_eq changelog_queue_read)

lemma run_queue_kept:
  "priv_changelog_queue m = Some q \<Longrightarrow> priv_changelog_queue (run m cs) = Some q"
  by (induction cs rule: rev_induct) (simp_all add: run_def step_queue_kept)

lemma step_recovery_kept: "priv_recovery m = Some r \<Longrightarrow> priv_recovery (step m c) = Some r"
  by (cases c)
    (simp_all add: add_frame on_start_def on_rebalance_def Let_def case_prod_beta
      update_channels_frame recovery_read notify_tables_eq on_stop_eq
      on_recovery_completed_eq changelog_queue_frame)

lemma run_recovery_kept: "priv_recovery m = Some r \<Longrightarrow> priv_recovery (run m cs) = Some r"
  by (induction cs rule: rev_induct) (simp_all add: run_def step_recovery_kept)

text \<open>
  Claim C8. A fresh manager has neither the queue nor the coordinator. An access with
  the attribute empty constructs the instance, as its only effect; an access with the
  attribute filled changes nothing. After a first access, and then any sequence of
  calls, the next access returns the instance the first one returned. After any sequence
  of calls on a fresh manager, the trace has exactly one construction of the queue if
  the attribute is filled and none otherwise, every queue handed to
  \<open>clone_using_queue\<close> is the one in the attribute, and the same holds for the
  coordinator and every call made on it.
\<close>

theorem lazy_singletons:
  "priv_changelog_queue (init a) = None \<and> priv_recovery (init a) = None
   \<and> (priv_changelog_queue m = None \<longrightarrow>
        new_events m (snd (changelog_queue m)) = [EvFlowControlQueue (fst (changelog_queue m))])
   \<and> (priv_changelog_queue m \<noteq> None \<longrightarrow> snd (changelog_queue m) = m)
   \<and> fst (changelog_queue (run (snd (changelog_queue m)) cs)) = fst (changelog_queue m)
   \<and> (priv_recovery m = None \<longrightarrow>
        new_events m (snd (recovery m)) = [EvRecoveryCreated (fst (recovery m))])
   \<and> (priv_recovery m \<noteq> None \<longrightarrow> snd (recovery m) = m)
   \<and> fst (recovery (run (snd (recovery m)) cs)) = fst (recovery m)
   \<and> length (filter is_queue_created (trace (run (init a) cs)))
       = (if priv_changelog_queue (run (init a) cs) = None then 0 else 1)
   \<and> length (filter is_recovery_created (trace (run (init a) cs)))
       = (if priv_recovery (run (init a) cs) = None then 0 else 1)
   \<and> (\<forall>e \<in> set (trace (run (init a) cs)). \<forall>q.
        queue_of e = Some q \<longrightarrow> priv_changelog_queue (run (init a) cs) = Some q)
   \<and> (\<forall>e \<in> set (trace (run (init a) cs)). \<forall>r.
        recovery_of e = Some r \<longrightarrow> priv_recovery (run (init a) cs) = Some r)"
proof -
  have fresh: "priv_changelog_queue (init a) = None \<and> priv_recovery (init a) = None"
    by (simp add: init_def)
  have q_first: "priv_changelog_queue m = None \<longrightarrow>
        new_events m (snd (changelog_queue m)) = [EvFlowControlQueue (fst (changelog_queue m))]"
    by (simp add: new_events_def changelog_queue_trace)
  have q_later: "priv_changelog_queue m \<noteq> None \<longrightarrow> snd (changelog_queue m) = m"
    by (auto simp add: changelog_queue_read)
  have q_same: "fst (changelog_queue (run (snd (changelog_queue m)) cs)) = fst (changelog_queue m)"
  proof -
    have "priv_changelog_queue (run (snd (changelog_queue m)) cs) = Some (fst (changelog_queue m))"
      by (rule run_queue_kept) (rule changelog_queue_slot)
    then show ?thesis
      by (simp add: changelog_queue_read)
  qed
  have r_first: "priv_recovery m = None \<longrightarrow>
        new_events m (snd (recovery m)) = [EvRecoveryCreated (fst (recovery m))]"
    by (simp add: new_events_def recovery_trace)
  have r_later: "priv_recovery m \<noteq> None \<longrightarrow> snd (recovery m) = m"
    by (auto simp add: recovery_read)
  have r_same: "fst (recovery (run (snd (recovery m)) cs)) = fst (recovery m)"
  proof -
    have "priv_recovery (run (snd (recovery m)) cs) = Some (fst (recovery m))"
      by (rule run_recovery_kept) (rule recovery_slot)
    then show ?thesis
      by (simp add: recovery_read)
  qed
  have "queue_once (run (init a) cs)"
    by (simp add: queue_once_init queue_once_run)
  then have q_once: "length (filter is_queue_created (trace (run (init a) cs)))
       = (if priv_changelog_queue (run (init a) cs) = None then 0 else 1)"
    and q_uses: "\<forall>e \<in> set (trace (run (init a) cs)). \<forall>q.
        queue_of e = Some q \<longrightarrow> priv_changelog_queue (run (init a) cs) = Some q"
    by (simp_all add: queue_once_def)
  have "recovery_once (run (init a) cs)"
    by (simp add: recovery_once_init recovery_once_run)
  then have r_once: "length (filter is_recovery_created (trace (run (init a) cs)))
       = (if priv_recovery (run (init a) cs) = None then 0 else 1)"
    and r_uses: "\<forall>e \<in> set (trace (run (init a) cs)). \<forall>r.
        recovery_of e = Some r \<longrightarrow> priv_recovery (run (init a) cs) = Some r"
    by (simp_all add: recovery_once_def)
  from fresh q_first q_later q_same r_first r_later r_same q_once r_once q_uses r_uses
  show ?thesis by (intro conjI) simp_all
qed


text \<open>A fresh manager after one access of each.\<close>

lemma two_accesses:
  "run (init example_app) [GetChangelogQueue, GetRecovery] =
     (init example_app)
       \<lparr>priv_changelog_queue := Some (FlowControlQueue 0 4096 True),
        priv_recovery := Some (Recovery 1), heap_next := 2,
        trace := [EvFlowControlQueue (FlowControlQueue 0 4096 True),
                  EvRecoveryCreated (Recovery 1)]\<rparr>"
  by (simp add: run_def changelog_queue_def recovery_def emit_def init_def example_app_def
      Let_def)

theorem lazy_singletons_witness:
  "priv_changelog_queue (init example_app) = None
   \<and> new_events (init example_app) (snd (changelog_queue (init example_app)))
       = [EvFlowControlQueue (FlowControlQueue 0 4096 True)]
   \<and> priv_changelog_queue (snd (changelog_queue (init example_app))) \<noteq> None
   \<and> snd (changelog_queue (snd (changelog_queue (init example_app))))
       = snd (changelog_queue (init example_app))
   \<and> priv_recovery (init example_app) = None
   \<and> new_events (init example_app) (snd (recovery (init example_app)))
       = [EvRecoveryCreated (Recovery 0)]
   \<and> priv_recovery (snd (recovery (init example_app))) \<noteq> None
   \<and> snd (recovery (snd (recovery (init example_app)))) = snd (recovery (init example_app))
   \<and> EvFlowControlQueue (FlowControlQueue 0 4096 True)
       \<in> set (trace (run (init example_app) [GetChangelogQueue, GetRecovery]))
   \<and> queue_of (EvFlowControlQueue (FlowControlQueue 0 4096 True))
       = Some (FlowControlQueue 0 4096 True)
   \<and> priv_changelog_queue (run (init example_app) [GetChangelogQueue, GetRecovery])
       = Some (FlowControlQueue 0 4096 True)
   \<and> EvRecoveryCreated (Recovery 1)
       \<in> set (trace (run (init example_app) [GetChangelogQueue, GetRecovery]))
   \<and> recovery_of (EvRecoveryCreated (Recovery 1)) = Some (Recovery 1)
   \<and> priv_recovery (run (init example_app) [GetChangelogQueue, GetRecovery])
       = Some (Recovery 1)"
proof -
  let ?m0 = "init example_app"
  let ?q = "FlowControlQueue 0 4096 True"
  let ?cs = "[GetChangelogQueue, GetRecovery]"
  have none: "priv_changelog_queue ?m0 = None" "priv_recovery ?m0 = None"
    by (simp_all add: init_def)
  have made: "fst (changelog_queue ?m0) = ?q" "fst (recovery ?m0) = Recovery 0"
    by (simp_all add: changelog_queue_def recovery_def init_def example_app_def Let_def)
  have some: "priv_changelog_queue (snd (changelog_queue ?m0)) \<noteq> None"
    "priv_recovery (snd (recovery ?m0)) \<noteq> None"
    by (simp_all add: changelog_queue_def recovery_def init_def Let_def)
  have occ: "EvFlowControlQueue ?q \<in> set (trace (run ?m0 ?cs))"
    "EvRecoveryCreated (Recovery 1) \<in> set (trace (run ?m0 ?cs))"
    by (simp_all add: two_accesses)
  have "queue_of (EvFlowControlQueue ?q) = Some ?q"
    and "recovery_of (EvRecoveryCreated (Recovery 1)) = Some (Recovery 1)"
    by simp_all
  with occ lazy_singletons [of example_app ?m0 "[]"] lazy_singletons [of example_app ?m0 ?cs]
  have slots: "priv_changelog_queue (run ?m0 ?cs) = Some ?q"
    "priv_recovery (run ?m0 ?cs) = Some (Recovery 1)"
    by blast+
  from none lazy_singletons [of example_app ?m0 "[]"]
  have first: "new_events ?m0 (snd (changelog_queue ?m0)) = [EvFlowControlQueue (fst (changelog_queue ?m0))]"
    "new_events ?m0 (snd (recovery ?m0)) = [EvRecoveryCreated (fst (recovery ?m0))]"
    by blast+
  from some lazy_singletons [of example_app "snd (changelog_queue ?m0)" "[]"]
    lazy_singletons [of example_app "snd (recovery ?m0)" "[]"]
  have later: "snd (changelog_queue (snd (changelog_queue ?m0))) = snd (changelog_queue ?m0)"
    "snd (recovery (snd (recovery ?m0))) = snd (recovery ?m0)"
    by blast+
  from none some occ slots first later show ?thesis
    by (simp add: made)
qed

end
